theory Spec2Isabelle
  imports Complex_Main "HOL-Library.Word"
begin

unbundle bit_operations_syntax

section \<open>Bloom filter base class (be/src/storage/rowset/segment_v2/bloom_filter.h)\<close>

type_synonym byte = "8 word"

text \<open>
  Modelled from the spec: \<open>HashStrategyPB\<close> is generated from a protobuf file that is not
  among the sources. The spec speaks of an enumerated hash strategy with one concrete
  murmur-family 64-bit variant; every other value that can arrive in the enum's integer
  representation is \<open>HASH_UNSUPPORTED v\<close>.
\<close>

datatype HashStrategyPB = HASH_MURMUR3_X64_64 | HASH_UNSUPPORTED int

text \<open>
  \<open>Status::InvalidArgument(strings::Substitute("invalid strategy:$0", strategy))\<close> and
  \<open>"invalid size:$0"\<close>: the message is kept as data.
\<close>

datatype message = invalid_strategy HashStrategyPB | invalid_size "32 word"

datatype Status = OK | InvalidArgument message

text \<open>
  Behaviour the C++ leaves undefined (dereferencing \<open>nullptr\<close>, touching bytes outside an
  allocation) or reports by throwing (\<open>std::bad_function_call\<close> of an empty
  \<open>std::function\<close>) is a value of its own, so no model function hides it.
\<close>

datatype fault = null_dereference | out_of_bounds | bad_function_call

text \<open>
  \<open>std::function<void(const void*, const int, const uint64_t, void*)>\<close>: key bytes, length
  (an \<open>int\<close>, read with \<open>sint\<close>), seed; the 64-bit code written through the last pointer is
  the result. \<open>murmur_hash3_x64_64\<close> (util/murmur_hash3.h) is not among the sources and is
  a parameter of the two \<open>init\<close> functions.
\<close>

type_synonym hash_func = "byte list \<Rightarrow> 32 word \<Rightarrow> 64 word \<Rightarrow> 64 word"

text \<open>
  The members \<open>_data\<close>, \<open>_num_bytes\<close>, \<open>_size\<close>, \<open>_has_null\<close>, \<open>_hash_func\<close>
  (a name cannot start with an underscore here, so the fields carry the prefix \<open>m\<close>).
  \<open>_data\<close> is \<open>None\<close> for \<open>nullptr\<close>, otherwise the allocated bytes. \<open>_has_null\<close> always
  points into \<open>_data\<close>: \<open>Some k\<close> is the pointer \<open>_data + k\<close>, \<open>None\<close> is \<open>nullptr\<close>.
\<close>

record BloomFilter =
  m_data :: "byte list option"
  m_num_bytes :: "32 word"
  m_size :: "32 word"
  m_has_null :: "nat option"
  m_hash_func :: "hash_func option"

definition DEFAULT_SEED :: "32 word" where
  "DEFAULT_SEED = 1575457558"

definition MINIMUM_BYTES :: "32 word" where
  "MINIMUM_BYTES = 32"

definition MAXIMUM_BYTES :: "32 word" where
  "MAXIMUM_BYTES = 128 * 1024 * 1024"

text \<open>The constructor \<open>BloomFilter()\<close>.\<close>

definition BloomFilter_new :: BloomFilter where
  "BloomFilter_new =
     \<lparr>m_data = None, m_num_bytes = 0, m_size = 0, m_has_null = None, m_hash_func = None\<rparr>"

text \<open>
  \<open>Status init(uint64_t n, double fpp, HashStrategyPB strategy)\<close>, the write path.
  \<open>_optimal_bit_num\<close> is only declared in the header; it is the first parameter here, and
  the type of \<open>fpp\<close> is whatever that helper takes. The \<open>DCHECK\<close> is a debug assertion
  with no effect on the state (the debug build follows below). \<open>_num_bytes\<close> is at most
  \<open>(2^32 - 1) div 8\<close>, so \<open>_num_bytes + 1\<close> does not wrap and \<open>_data + _num_bytes\<close> is the
  last allocated byte.
\<close>

definition init_for_write ::
  "(64 word \<Rightarrow> 'd \<Rightarrow> 32 word) \<Rightarrow> hash_func \<Rightarrow> 64 word \<Rightarrow> 'd \<Rightarrow> HashStrategyPB
     \<Rightarrow> BloomFilter \<Rightarrow> Status \<times> BloomFilter" where
  "init_for_write optimal_bit_num murmur_hash3_x64_64 n fpp strategy bf =
     (if strategy = HASH_MURMUR3_X64_64 then
        let bf = bf\<lparr>m_hash_func := Some murmur_hash3_x64_64\<rparr>;
            bf = bf\<lparr>m_num_bytes := optimal_bit_num n fpp div 8\<rparr>;
            bf = bf\<lparr>m_size := m_num_bytes bf + 1\<rparr>;
            bf = bf\<lparr>m_data := Some (replicate (unat (m_size bf)) 0)\<rparr>;
            bf = bf\<lparr>m_has_null := Some (unat (m_num_bytes bf))\<rparr>;
            bf = bf\<lparr>m_data := map_option (\<lambda>d. d[unat (m_num_bytes bf) := 0]) (m_data bf)\<rparr>
        in (OK, bf)
      else (InvalidArgument (invalid_strategy strategy), bf))"

text \<open>
  \<open>Status init(const char* buf, uint32_t size, HashStrategyPB strategy)\<close>, the read path.
  \<open>buf\<close> is the memory readable at the pointer. \<open>DCHECK(size > 1)\<close> is compiled out of a
  release build, which is the build modelled here (the debug build follows below); the
  only run-time test of the size is \<open>size == 0\<close>. \<open>memcpy\<close> of more bytes than \<open>buf\<close> holds
  is undefined.
\<close>

definition init_for_read ::
  "hash_func \<Rightarrow> byte list \<Rightarrow> 32 word \<Rightarrow> HashStrategyPB \<Rightarrow> BloomFilter
     \<Rightarrow> fault + Status \<times> BloomFilter" where
  "init_for_read murmur_hash3_x64_64 buf sz strategy bf =
     (if strategy = HASH_MURMUR3_X64_64 then
        let bf = bf\<lparr>m_hash_func := Some murmur_hash3_x64_64\<rparr> in
        if sz = 0 then Inr (InvalidArgument (invalid_size sz), bf)
        else if length buf < unat sz then Inl out_of_bounds
        else
          let bf = bf\<lparr>m_data := Some (take (unat sz) buf)\<rparr>;
              bf = bf\<lparr>m_size := sz\<rparr>;
              bf = bf\<lparr>m_num_bytes := m_size bf - 1\<rparr>;
              bf = bf\<lparr>m_has_null := Some (unat (m_num_bytes bf))\<rparr>
          in Inr (OK, bf)
      else Inr (InvalidArgument (invalid_strategy strategy), bf))"

text \<open>
  A debug build keeps the two \<open>DCHECK\<close>s, which abort the process: on the write path after
  \<open>_num_bytes\<close> has been computed ("make sure \<open>_num_bytes\<close> is power of 2"), on the read
  path on entry (\<open>size > 1\<close>).
\<close>

datatype abort = dcheck_failed

definition init_for_write_debug ::
  "(64 word \<Rightarrow> 'd \<Rightarrow> 32 word) \<Rightarrow> hash_func \<Rightarrow> 64 word \<Rightarrow> 'd \<Rightarrow> HashStrategyPB
     \<Rightarrow> BloomFilter \<Rightarrow> abort + Status \<times> BloomFilter" where
  "init_for_write_debug optimal_bit_num murmur_hash3_x64_64 n fpp strategy bf =
     (if strategy = HASH_MURMUR3_X64_64
         \<and> (optimal_bit_num n fpp div 8) AND (optimal_bit_num n fpp div 8 - 1) \<noteq> 0
      then Inl dcheck_failed
      else Inr (init_for_write optimal_bit_num murmur_hash3_x64_64 n fpp strategy bf))"

definition init_for_read_debug ::
  "hash_func \<Rightarrow> byte list \<Rightarrow> 32 word \<Rightarrow> HashStrategyPB \<Rightarrow> BloomFilter
     \<Rightarrow> abort + fault + Status \<times> BloomFilter" where
  "init_for_read_debug murmur_hash3_x64_64 buf sz strategy bf =
     (if \<not> 1 < sz then Inl dcheck_failed
      else Inr (init_for_read murmur_hash3_x64_64 buf sz strategy bf))"

text \<open>\<open>void reset() { memset(_data, 0, _size); }\<close>\<close>

definition reset :: "BloomFilter \<Rightarrow> fault + BloomFilter" where
  "reset bf =
     (case m_data bf of
        None \<Rightarrow> Inl null_dereference
      | Some d \<Rightarrow>
          if length d < unat (m_size bf) then Inl out_of_bounds
          else Inr (bf\<lparr>m_data := Some (replicate (unat (m_size bf)) 0 @ drop (unat (m_size bf)) d)\<rparr>))"

text \<open>
  \<open>uint64_t hash(const char* buf, uint32_t size) const\<close>: the seed widens from
  \<open>uint32_t\<close> to \<open>uint64_t\<close>, the size converts to \<open>int\<close>.
\<close>

definition hash :: "BloomFilter \<Rightarrow> byte list \<Rightarrow> 32 word \<Rightarrow> fault + 64 word" where
  "hash bf buf sz =
     (case m_hash_func bf of
        None \<Rightarrow> Inl bad_function_call
      | Some f \<Rightarrow> Inr (f buf sz (ucast DEFAULT_SEED)))"

text \<open>\<open>*_has_null = has_null\<close> and \<open>return *_has_null\<close>: a \<open>bool\<close> stored in one byte.\<close>

definition set_has_null :: "bool \<Rightarrow> BloomFilter \<Rightarrow> fault + BloomFilter" where
  "set_has_null has_null bf =
     (case (m_data bf, m_has_null bf) of
        (Some d, Some k) \<Rightarrow>
          if k < length d then Inr (bf\<lparr>m_data := Some (d[k := (if has_null then 1 else 0)])\<rparr>)
          else Inl out_of_bounds
      | _ \<Rightarrow> Inl null_dereference)"

definition has_null :: "BloomFilter \<Rightarrow> fault + bool" where
  "has_null bf =
     (case (m_data bf, m_has_null bf) of
        (Some d, Some k) \<Rightarrow> if k < length d then Inr (d ! k \<noteq> 0) else Inl out_of_bounds
      | _ \<Rightarrow> Inl null_dereference)"

text \<open>
  \<open>add_bytes\<close> and \<open>test_bytes\<close>. \<open>buf\<close> is \<open>None\<close> for \<open>nullptr\<close>. The pure virtual
  \<open>add_hash\<close> and \<open>test_hash\<close> are the first parameter: the subclass's override.
\<close>

definition add_bytes ::
  "(64 word \<Rightarrow> BloomFilter \<Rightarrow> fault + BloomFilter) \<Rightarrow> byte list option \<Rightarrow> 32 word
     \<Rightarrow> BloomFilter \<Rightarrow> fault + BloomFilter" where
  "add_bytes add_hash buf sz bf =
     (case buf of
        None \<Rightarrow> set_has_null True bf
      | Some bs \<Rightarrow>
          (case hash bf bs sz of
             Inl e \<Rightarrow> Inl e
           | Inr code \<Rightarrow> add_hash code bf))"

definition test_bytes ::
  "(64 word \<Rightarrow> BloomFilter \<Rightarrow> fault + bool) \<Rightarrow> byte list option \<Rightarrow> 32 word
     \<Rightarrow> BloomFilter \<Rightarrow> fault + bool" where
  "test_bytes test_hash buf sz bf =
     (case buf of
        None \<Rightarrow> has_null bf
      | Some bs \<Rightarrow>
          (case hash bf bs sz of
             Inl e \<Rightarrow> Inl e
           | Inr code \<Rightarrow> test_hash code bf))"

text \<open>The accessors \<open>data()\<close>, \<open>num_bytes()\<close> and \<open>size()\<close>.\<close>

definition data :: "BloomFilter \<Rightarrow> byte list option" where
  "data bf = m_data bf"

definition num_bytes :: "BloomFilter \<Rightarrow> 32 word" where
  "num_bytes bf = m_num_bytes bf"

definition size_bytes :: "BloomFilter \<Rightarrow> 32 word" where
  "size_bytes bf = m_size bf"

text \<open>A run of \<open>add_bytes\<close> calls, stopping at the first fault.\<close>

fun add_all ::
  "(64 word \<Rightarrow> BloomFilter \<Rightarrow> fault + BloomFilter) \<Rightarrow> (byte list option \<times> 32 word) list
     \<Rightarrow> BloomFilter \<Rightarrow> fault + BloomFilter" where
  "add_all add_hash [] bf = Inr bf"
| "add_all add_hash ((buf, sz) # vs) bf =
     (case add_bytes add_hash buf sz bf of
        Inl e \<Rightarrow> Inl e
      | Inr bf' \<Rightarrow> add_all add_hash vs bf')"

text \<open>
  What the member comments promise of a filter after \<open>init\<close>: \<open>_size\<close> "equal to
  \<open>_num_bytes + 1\<close>", \<open>_data\<close> holding \<open>_size\<close> bytes, \<open>_has_null\<close> the "last byte's pointer
  in data", and a hash function installed.
\<close>

definition initialized :: "BloomFilter \<Rightarrow> bool" where
  "initialized bf =
     (case m_data bf of
        None \<Rightarrow> False
      | Some d \<Rightarrow>
          length d = unat (m_size bf) \<and> unat (m_size bf) = unat (m_num_bytes bf) + 1
          \<and> m_has_null bf = Some (unat (m_num_bytes bf))
          \<and> (case m_hash_func bf of None \<Rightarrow> False | Some f \<Rightarrow> True))"

subsection \<open>The helper and the subclass that are not among the sources\<close>

text \<open>The least power of two that is at least \<open>m\<close>, by doubling from \<open>k\<close>.\<close>

function round_up_pow2 :: "nat \<Rightarrow> nat \<Rightarrow> nat" where
  "round_up_pow2 k m = (if k = 0 \<or> m \<le> k then k else round_up_pow2 (2 * k) m)"
  by pat_completeness auto
termination
  by (relation "measure (\<lambda>(k, m). m - k)") auto

declare round_up_pow2.simps [simp del]

definition next_power_of_two :: "nat \<Rightarrow> nat" where
  "next_power_of_two m = round_up_pow2 1 m"

text \<open>
  Modelled from the spec: the body of \<open>_optimal_bit_num\<close> is missing (the header only
  declares it). Spec 4.4: "the optimal bit count is \<open>m = ceil(-n * ln(p) / (ln 2)^2)\<close>, then
  rounded up to the next power of two, and \<open>numBytes = m / 8\<close>. [...] \<open>numBytes\<close> is
  clamped to \<open>[32, 128 * 1024 * 1024]\<close>". The write path divides the helper's result by 8
  itself, so the helper returns the bit count of the clamped byte count. The formula is
  taken over the reals, as the spec writes it.
\<close>

definition optimal_bits :: "64 word \<Rightarrow> real \<Rightarrow> nat" where
  "optimal_bits n fpp = nat \<lceil>- real (unat n) * ln fpp / (ln 2)\<^sup>2\<rceil>"

definition clamp_bytes :: "nat \<Rightarrow> nat" where
  "clamp_bytes b = max (unat MINIMUM_BYTES) (min (unat MAXIMUM_BYTES) b)"

definition optimal_bit_num :: "64 word \<Rightarrow> real \<Rightarrow> 32 word" where
  "optimal_bit_num n fpp =
     of_nat (8 * clamp_bytes (next_power_of_two (optimal_bits n fpp) div 8))"

text \<open>
  Modelled from the spec: the subclass that overrides \<open>add_hash\<close> and \<open>test_hash\<close> is
  missing. Spec 4.4: "a hash of the value's raw bytes is folded into the fixed-size bit
  array via however many probe positions the concrete subtype chooses to derive from the
  single 64-bit hash". The derivation is the parameter \<open>probes\<close> (from the hash code and
  the number of bytes of the bit array); probe position \<open>p\<close> is bit \<open>p mod 8\<close> of byte
  \<open>p div 8\<close> of the first \<open>_num_bytes\<close> bytes of \<open>_data\<close>. Adding sets every probed bit,
  testing asks whether every probed bit is set. A position outside the bit array is an
  access outside it.
\<close>

definition set_probe :: "nat \<Rightarrow> byte list \<Rightarrow> byte list" where
  "set_probe p d = d[p div 8 := set_bit (p mod 8) (d ! (p div 8))]"

definition test_probe :: "byte list \<Rightarrow> nat \<Rightarrow> bool" where
  "test_probe d p = bit (d ! (p div 8)) (p mod 8)"

definition probes_in_array :: "nat list \<Rightarrow> BloomFilter \<Rightarrow> byte list \<Rightarrow> bool" where
  "probes_in_array ps bf d =
     (unat (m_num_bytes bf) \<le> length d \<and> list_all (\<lambda>p. p < 8 * unat (m_num_bytes bf)) ps)"

definition add_hash ::
  "(64 word \<Rightarrow> 32 word \<Rightarrow> nat list) \<Rightarrow> 64 word \<Rightarrow> BloomFilter \<Rightarrow> fault + BloomFilter" where
  "add_hash probes h bf =
     (case m_data bf of
        None \<Rightarrow> Inl null_dereference
      | Some d \<Rightarrow>
          let ps = probes h (m_num_bytes bf) in
          if probes_in_array ps bf d then Inr (bf\<lparr>m_data := Some (fold set_probe ps d)\<rparr>)
          else Inl out_of_bounds)"

definition test_hash ::
  "(64 word \<Rightarrow> 32 word \<Rightarrow> nat list) \<Rightarrow> 64 word \<Rightarrow> BloomFilter \<Rightarrow> fault + bool" where
  "test_hash probes h bf =
     (case m_data bf of
        None \<Rightarrow> Inl null_dereference
      | Some d \<Rightarrow>
          let ps = probes h (m_num_bytes bf) in
          if probes_in_array ps bf d then Inr (list_all (test_probe d) ps)
          else Inl out_of_bounds)"

text \<open>
  Whether bit \<open>q\<close> of the bit array (the first \<open>_num_bytes\<close> bytes of \<open>_data\<close>) is set.
\<close>

definition bit_array :: "BloomFilter \<Rightarrow> nat \<Rightarrow> bool" where
  "bit_array bf q =
     (case m_data bf of
        None \<Rightarrow> False
      | Some d \<Rightarrow> q < 8 * unat (m_num_bytes bf) \<and> test_probe d q)"

section \<open>String dictionary (orc Vector.hh)\<close>

text \<open>
  \<open>struct StringDictionary\<close>: \<open>dictionaryBlob\<close> (\<open>DataBuffer<char>\<close>) and
  \<open>dictionaryOffset\<close> (\<open>DataBuffer<int64_t>\<close>). A buffer is the list of its elements, so
  \<open>size()\<close> is \<open>length\<close>.
\<close>

record StringDictionary =
  dictionaryBlob :: "byte list"
  dictionaryOffset :: "64 word list"

datatype exception = out_of_range

text \<open>
  \<open>void getValueByIndex(int64_t index, char*& valPtr, int64_t& length)\<close>. The two
  reference parameters are the result: \<open>valPtr\<close> as the byte offset added to
  \<open>dictionaryBlob.data()\<close> (an \<open>int64_t\<close>, read with \<open>sint\<close>) and \<open>length\<close>, whose
  subtraction wraps. \<open>static_cast<uint64_t>(index) + 1\<close> is \<open>index + 1\<close> on the word, read
  unsigned.
\<close>

definition getValueByIndex :: "StringDictionary \<Rightarrow> 64 word \<Rightarrow> exception + int \<times> 64 word" where
  "getValueByIndex d index =
     (if index <s 0 \<or> unat (index + 1) \<ge> length (dictionaryOffset d) then Inl out_of_range
      else
        let offsetPtr = dictionaryOffset d
        in Inr (sint (offsetPtr ! unat index),
                offsetPtr ! unat (index + 1) - offsetPtr ! unat index))"

text \<open>
  The number of keys of a dictionary: its offsets buffer has \<open>keyCount + 1\<close> entries.
\<close>

definition keyCount :: "StringDictionary \<Rightarrow> int" where
  "keyCount d = int (length (dictionaryOffset d)) - 1"

section \<open>Column vector batches (orc Vector.hh)\<close>

text \<open>
  \<open>struct ColumnVectorBatch\<close>, the base of every batch: \<open>capacity\<close>, \<open>numElements\<close>,
  \<open>notNull\<close> (a \<open>DataBuffer<char>\<close>, one byte per row), \<open>hasNulls\<close>, \<open>isEncoded\<close>. The memory
  pool is left out. A \<open>DataBuffer\<close> is the list of its elements.
\<close>

record ColumnVectorBatch =
  capacity :: "64 word"
  numElements :: "64 word"
  notNull :: "byte list"
  hasNulls :: bool
  isEncoded :: bool

text \<open>
  The structs derived from it, one constructor each, the base first and then the struct's
  own members in the order of their declaration:
  \<^item> \<open>LongVectorBatch\<close>, \<open>DoubleVectorBatch\<close>: \<open>data\<close> (a \<open>double\<close> as its 64 bits);
  \<^item> \<open>StringVectorBatch\<close>: \<open>data\<close> (the \<open>char*\<close> of each string; spec 3 has it as the
    "per-row start pointer into a blob", so it is the position in \<open>blob\<close> of the byte it
    points at), \<open>length\<close>, \<open>blob\<close>, \<open>codes\<close>, \<open>use_codes\<close>;
  \<^item> \<open>EncodedStringVectorBatch\<close>: the members of \<open>StringVectorBatch\<close>, then \<open>dictionary\<close>
    and \<open>index\<close>;
  \<^item> \<open>StructVectorBatch\<close>: \<open>fields\<close>;
  \<^item> \<open>ListVectorBatch\<close>: \<open>offsets\<close>, \<open>elements\<close>;
  \<^item> \<open>MapVectorBatch\<close>: \<open>offsets\<close>, \<open>keys\<close>, \<open>elements\<close>;
  \<^item> \<open>UnionVectorBatch\<close>: \<open>tags\<close>, \<open>offsets\<close>, \<open>children\<close>;
  \<^item> \<open>Decimal64VectorBatch\<close>, \<open>Decimal128VectorBatch\<close>: \<open>precision\<close>, \<open>scale\<close>, \<open>values\<close>,
    \<open>readScales\<close>;
  \<^item> \<open>TimestampVectorBatch\<close>: \<open>data\<close>, \<open>nanoseconds\<close>.
  Owned children (\<open>ColumnVectorBatch*\<close>, \<open>ORC_UNIQUE_PTR\<close>) are the child batches themselves.
  Where a member's name is taken in HOL, the equations below bind it under another name
  (\<open>ptrs\<close> and \<open>lens\<close> for a string's \<open>data\<close> and \<open>length\<close>, \<open>flds\<close> for \<open>fields\<close>, \<open>vals\<close> for
  \<open>values\<close>, \<open>secs\<close> and \<open>nanos\<close> for a timestamp's \<open>data\<close> and \<open>nanoseconds\<close>).
\<close>

datatype batch =
    LongVectorBatch (base: ColumnVectorBatch) "64 word list"
  | DoubleVectorBatch (base: ColumnVectorBatch) "64 word list"
  | StringVectorBatch (base: ColumnVectorBatch) "64 word list" "64 word list" "byte list"
      "64 word list" bool
  | EncodedStringVectorBatch (base: ColumnVectorBatch) "64 word list" "64 word list" "byte list"
      "64 word list" bool StringDictionary "64 word list"
  | StructVectorBatch (base: ColumnVectorBatch) "batch list"
  | ListVectorBatch (base: ColumnVectorBatch) "64 word list" batch
  | MapVectorBatch (base: ColumnVectorBatch) "64 word list" batch batch
  | UnionVectorBatch (base: ColumnVectorBatch) "byte list" "64 word list" "batch list"
  | Decimal64VectorBatch (base: ColumnVectorBatch) "32 word" "32 word" "64 word list"
      "64 word list"
  | Decimal128VectorBatch (base: ColumnVectorBatch) "32 word" "32 word" "128 word list"
      "64 word list"
  | TimestampVectorBatch (base: ColumnVectorBatch) "64 word list" "64 word list"

text \<open>
  The number of rows of a batch, \<open>numElements\<close> read as a natural number.
\<close>

definition child_size :: "batch \<Rightarrow> nat" where
  "child_size b = unat (numElements (base b))"

subsection \<open>The filter, whose body is not among the sources\<close>

text \<open>
  Modelled from the spec: \<open>filter(uint8_t* f_data, uint32_t f_size, uint32_t true_size)\<close> is
  declared for the base and overridden in every struct, but the bodies (Vector.cc) are
  missing. Spec 4.2: "given a boolean-like selection array and the count of true entries,
  compact this batch in place to contain exactly the selected rows, preserving original
  relative order, and set \<open>numElements = trueCount\<close>".

  \<open>selected sel xs\<close> are the entries of a buffer whose selection byte is nonzero, in order;
  \<open>compact\<close> writes them to the front of the buffer and leaves the rest of the buffer as it
  was (the compaction is in place); \<open>count_true\<close> counts the nonzero selection bytes.
\<close>

definition selected :: "byte list \<Rightarrow> 'a list \<Rightarrow> 'a list" where
  "selected sel xs = map snd (filter (\<lambda>(s, x). s \<noteq> 0) (zip sel xs))"

definition compact :: "byte list \<Rightarrow> 'a list \<Rightarrow> 'a list" where
  "compact sel xs = (let kept = selected sel xs in kept @ drop (length kept) xs)"

definition count_true :: "byte list \<Rightarrow> nat" where
  "count_true sel = length (filter (\<lambda>s. s \<noteq> 0) sel)"

text \<open>
  Modelled from the spec: "the base class owns the generic, type-agnostic part, compacting
  \<open>notNull\<close>", and "recomputing \<open>hasNulls\<close> after a filter is each variant's responsibility
  (deriving an index-by-index scan over the surviving range, or a conservative carry-forward
  of the prior value)". Which of the two a variant does is not said, so it is a parameter.
\<close>

datatype hasNulls_rule = scan_surviving | carry_forward

definition filter_base ::
  "hasNulls_rule \<Rightarrow> ColumnVectorBatch \<Rightarrow> byte list \<Rightarrow> 32 word \<Rightarrow> ColumnVectorBatch" where
  "filter_base rule c sel true_size =
     (let kept = compact sel (notNull c)
      in c\<lparr>notNull := kept,
           numElements := ucast true_size,
           hasNulls :=
             (case rule of
                carry_forward \<Rightarrow> hasNulls c
              | scan_surviving \<Rightarrow> list_ex (\<lambda>b. b = 0) (take (unat true_size) kept))\<rparr>)"

text \<open>
  Modelled from the spec, list and map: "for each selected parent row, its contiguous
  \<open>[offsets[i], offsets[i+1])\<close> range is retained wholesale; a new \<open>offsets\<close> array is built by
  prefix-summing retained range lengths; the derived element-level boolean selection marks
  true for every element index within a retained range, false elsewhere; children are then
  filtered with this derived selection". \<open>offsets\<close> holds \<open>int64_t\<close>, read with \<open>sint\<close>; the
  sums wrap as the machine's would. The derived selection has one byte per row of the child.
\<close>

definition lengths_of :: "64 word list \<Rightarrow> 64 word list" where
  "lengths_of offsets = map (\<lambda>(a, b). b - a) (zip offsets (tl offsets))"

fun running_sum :: "64 word \<Rightarrow> 64 word list \<Rightarrow> 64 word list" where
  "running_sum acc [] = [acc]"
| "running_sum acc (x # xs) = acc # running_sum (acc + x) xs"

definition list_offsets :: "byte list \<Rightarrow> 64 word list \<Rightarrow> 64 word list" where
  "list_offsets sel offsets =
     (let totals = running_sum 0 (selected sel (lengths_of offsets))
      in totals @ drop (length totals) offsets)"

definition list_child_selection :: "byte list \<Rightarrow> 64 word list \<Rightarrow> nat \<Rightarrow> byte list" where
  "list_child_selection sel offsets m =
     map (\<lambda>e. if list_ex (\<lambda>i. sel ! i \<noteq> 0 \<and> sint (offsets ! i) \<le> int e
                                \<and> int e < sint (offsets ! (i + 1))) [0..<length sel]
              then 1 else 0) [0..<m]"

text \<open>
  Modelled from the spec, union: "for each selected parent row, mark true at
  \<open>(tag[i], offset[i])\<close> in a per-child derived selection; each child is filtered
  independently with its own derived selection and new \<open>offsets\<close> are remapped to the child's
  new compacted positions". The new position of an element of a child is the number of
  marked elements before it. \<open>sizes\<close> are the row counts of the children.
\<close>

definition union_child_selection ::
  "byte list \<Rightarrow> byte list \<Rightarrow> 64 word list \<Rightarrow> nat \<Rightarrow> nat \<Rightarrow> byte list" where
  "union_child_selection sel tags offsets j m =
     map (\<lambda>e. if list_ex (\<lambda>i. sel ! i \<noteq> 0 \<and> unat (tags ! i) = j \<and> unat (offsets ! i) = e)
                   [0..<length sel]
              then 1 else 0) [0..<m]"

definition union_offsets ::
  "byte list \<Rightarrow> byte list \<Rightarrow> 64 word list \<Rightarrow> nat list \<Rightarrow> 64 word list" where
  "union_offsets sel tags offsets sizes =
     (let moved = map (\<lambda>(t, x). if unat t < length sizes
                         then of_nat (count_true (take (unat x)
                                (union_child_selection sel tags offsets (unat t) (sizes ! unat t))))
                         else x)
                    (selected sel (zip tags offsets))
      in moved @ drop (length moved) offsets)"

text \<open>
  Modelled from the spec, the overrides (4.3). \<open>sel\<close> is the selection, the first \<open>f_size\<close>
  bytes at \<open>f_data\<close>; \<open>ts\<close> is \<open>true_size\<close>.
  \<^item> Scalars (long, double, decimals, timestamp): "gather-compaction of the flat buffer(s)";
    \<open>readScales\<close> is not among the buffers the spec lets the contract touch and stays.
  \<^item> String: "compacts the per-row pointer/length pairs; the backing blob buffer is NOT
    compacted".
  \<^item> Dictionary-encoded string: "compacts only the per-row codes buffer; the shared
    dictionary is untouched". The per-row code buffer of this struct is \<open>index\<close>.
  \<^item> Struct: "compacts \<open>notNull\<close>, then applies the same selection, unchanged, to every
    child".
  \<^item> List, map, union: as above; a child is filtered with its derived selection and the
    count of its true entries.
\<close>

function compact_batch ::
  "(batch \<Rightarrow> hasNulls_rule) \<Rightarrow> batch \<Rightarrow> byte list \<Rightarrow> 32 word \<Rightarrow> batch" where
  "compact_batch rule (LongVectorBatch c xs) sel ts =
     LongVectorBatch (filter_base (rule (LongVectorBatch c xs)) c sel ts) (compact sel xs)"
| "compact_batch rule (DoubleVectorBatch c xs) sel ts =
     DoubleVectorBatch (filter_base (rule (DoubleVectorBatch c xs)) c sel ts) (compact sel xs)"
| "compact_batch rule (StringVectorBatch c ptrs lens blob codes use_codes) sel ts =
     StringVectorBatch (filter_base (rule (StringVectorBatch c ptrs lens blob codes use_codes)) c sel ts)
       (compact sel ptrs) (compact sel lens) blob codes use_codes"
| "compact_batch rule (EncodedStringVectorBatch c ptrs lens blob codes use_codes dict index) sel ts =
     EncodedStringVectorBatch
       (filter_base (rule (EncodedStringVectorBatch c ptrs lens blob codes use_codes dict index)) c sel ts)
       ptrs lens blob codes use_codes dict (compact sel index)"
| "compact_batch rule (StructVectorBatch c flds) sel ts =
     StructVectorBatch (filter_base (rule (StructVectorBatch c flds)) c sel ts)
       (map (\<lambda>f. compact_batch rule f sel ts) flds)"
| "compact_batch rule (ListVectorBatch c offsets elements) sel ts =
     (let d = list_child_selection sel offsets (child_size elements)
      in ListVectorBatch (filter_base (rule (ListVectorBatch c offsets elements)) c sel ts)
           (list_offsets sel offsets)
           (compact_batch rule elements d (of_nat (count_true d))))"
| "compact_batch rule (MapVectorBatch c offsets keys elements) sel ts =
     (let dk = list_child_selection sel offsets (child_size keys);
          de = list_child_selection sel offsets (child_size elements)
      in MapVectorBatch (filter_base (rule (MapVectorBatch c offsets keys elements)) c sel ts)
           (list_offsets sel offsets)
           (compact_batch rule keys dk (of_nat (count_true dk)))
           (compact_batch rule elements de (of_nat (count_true de))))"
| "compact_batch rule (UnionVectorBatch c tags offsets children) sel ts =
     UnionVectorBatch (filter_base (rule (UnionVectorBatch c tags offsets children)) c sel ts)
       (compact sel tags)
       (union_offsets sel tags offsets (map child_size children))
       (map (\<lambda>j. let d = union_child_selection sel tags offsets j (child_size (children ! j))
                 in compact_batch rule (children ! j) d (of_nat (count_true d)))
          [0..<length children])"
| "compact_batch rule (Decimal64VectorBatch c precision scale vals readScales) sel ts =
     Decimal64VectorBatch
       (filter_base (rule (Decimal64VectorBatch c precision scale vals readScales)) c sel ts)
       precision scale (compact sel vals) readScales"
| "compact_batch rule (Decimal128VectorBatch c precision scale vals readScales) sel ts =
     Decimal128VectorBatch
       (filter_base (rule (Decimal128VectorBatch c precision scale vals readScales)) c sel ts)
       precision scale (compact sel vals) readScales"
| "compact_batch rule (TimestampVectorBatch c secs nanos) sel ts =
     TimestampVectorBatch (filter_base (rule (TimestampVectorBatch c secs nanos)) c sel ts)
       (compact sel secs) (compact sel nanos)"
  by pat_completeness auto
termination
proof (relation "measure (\<lambda>(rule, b, sel, ts). size b)", goal_cases)
  case 1
  then show ?case by simp
next
  case (2 rule c flds sel ts f)
  then show ?case by (simp add: size_list_estimation' less_Suc_eq_le)
next
  case 3
  then show ?case by simp
next
  case 4
  then show ?case by simp
next
  case 5
  then show ?case by simp
next
  case (6 rule c tags offsets children sel ts j d)
  then have "children ! j \<in> set children" by simp
  then have "size (children ! j) \<le> size_list size children"
    by (rule size_list_estimation') simp
  then show ?case by simp
qed

text \<open>
  Modelled from the spec, the data model (3) and the contract of \<open>filter\<close> (4.2, 7):
  \<open>numElements \<le> capacity\<close>, \<open>notNull\<close> and the value buffers hold \<open>capacity\<close> entries; the
  children of a struct "share the same logical row count as the parent"; for a list or map
  "\<open>offsets\<close> is non-decreasing; \<open>offsets[numElements]\<close> equals the child batch's logical
  length" (the two children of a map having one length); for a union
  "\<open>offsets[i] < children[tags[i]].numElements\<close>". A row count has to fit the \<open>uint32_t\<close>
  that \<open>filter\<close> takes.
\<close>

definition base_ok :: "ColumnVectorBatch \<Rightarrow> bool" where
  "base_ok c \<longleftrightarrow>
     unat (numElements c) \<le> unat (capacity c) \<and> unat (capacity c) \<le> length (notNull c)
     \<and> unat (numElements c) < 2 ^ 32"

definition offsets_ok :: "nat \<Rightarrow> 64 word list \<Rightarrow> nat \<Rightarrow> bool" where
  "offsets_ok n offsets m \<longleftrightarrow>
     n + 1 \<le> length offsets
     \<and> list_all (\<lambda>i. 0 \<le> sint (offsets ! i) \<and> sint (offsets ! i) \<le> sint (offsets ! (i + 1)))
          [0..<n]
     \<and> sint (offsets ! n) = int m"

definition tags_ok :: "nat \<Rightarrow> byte list \<Rightarrow> 64 word list \<Rightarrow> nat list \<Rightarrow> bool" where
  "tags_ok n tags offsets sizes \<longleftrightarrow>
     n \<le> length tags \<and> n \<le> length offsets
     \<and> list_all (\<lambda>i. unat (tags ! i) < length sizes
                     \<and> unat (offsets ! i) < sizes ! unat (tags ! i)) [0..<n]"

fun well_formed :: "batch \<Rightarrow> bool" where
  "well_formed (LongVectorBatch c xs) \<longleftrightarrow> base_ok c \<and> unat (capacity c) \<le> length xs"
| "well_formed (DoubleVectorBatch c xs) \<longleftrightarrow> base_ok c \<and> unat (capacity c) \<le> length xs"
| "well_formed (StringVectorBatch c ptrs lens blob codes use_codes) \<longleftrightarrow>
     base_ok c \<and> unat (capacity c) \<le> length ptrs \<and> unat (capacity c) \<le> length lens"
| "well_formed (EncodedStringVectorBatch c ptrs lens blob codes use_codes dict index) \<longleftrightarrow>
     base_ok c \<and> unat (capacity c) \<le> length index"
| "well_formed (StructVectorBatch c flds) \<longleftrightarrow>
     base_ok c \<and> list_all (\<lambda>f. well_formed f \<and> numElements (base f) = numElements c) flds"
| "well_formed (ListVectorBatch c offsets elements) \<longleftrightarrow>
     base_ok c \<and> offsets_ok (unat (numElements c)) offsets (child_size elements)
     \<and> well_formed elements"
| "well_formed (MapVectorBatch c offsets keys elements) \<longleftrightarrow>
     base_ok c \<and> offsets_ok (unat (numElements c)) offsets (child_size keys)
     \<and> child_size elements = child_size keys
     \<and> well_formed keys \<and> well_formed elements"
| "well_formed (UnionVectorBatch c tags offsets children) \<longleftrightarrow>
     base_ok c \<and> tags_ok (unat (numElements c)) tags offsets (map child_size children)
     \<and> list_all well_formed children"
| "well_formed (Decimal64VectorBatch c precision scale vals readScales) \<longleftrightarrow>
     base_ok c \<and> unat (capacity c) \<le> length vals"
| "well_formed (Decimal128VectorBatch c precision scale vals readScales) \<longleftrightarrow>
     base_ok c \<and> unat (capacity c) \<le> length vals"
| "well_formed (TimestampVectorBatch c secs nanos) \<longleftrightarrow>
     base_ok c \<and> unat (capacity c) \<le> length secs \<and> unat (capacity c) \<le> length nanos"

text \<open>
  Modelled from the spec: "\<open>selectionLength\<close> must equal the batch's current \<open>numElements\<close>
  (selecting past the logical length is undefined)", and a selection length mismatch or
  malformed nested offsets are "programmer-error invariant breaches". A call outside the
  contract is a value of its own; inside it the batch is compacted.
\<close>

datatype contract = precondition_violated

definition filter_batch ::
  "(batch \<Rightarrow> hasNulls_rule) \<Rightarrow> batch \<Rightarrow> byte list \<Rightarrow> 32 word \<Rightarrow> 32 word
     \<Rightarrow> contract + batch" where
  "filter_batch rule b f_data f_size true_size =
     (let sel = take (unat f_size) f_data
      in if well_formed b \<and> unat f_size \<le> length f_data
            \<and> ucast f_size = numElements (base b) \<and> unat true_size = count_true sel
         then Inr (compact_batch rule b sel true_size)
         else Inl precondition_violated)"

subsection \<open>The logical content of a batch\<close>

text \<open>
  The bytes a code stands for: "user first obtain index from index array and retrieve
  string pointer and length by calling getValueByIndex() from dictionary" (Vector.hh); the
  bytes are the \<open>length\<close> bytes of \<open>dictionaryBlob\<close> from \<open>valPtr\<close> on, and a code the
  dictionary refuses has none.
\<close>

definition bytes_at :: "byte list \<Rightarrow> int \<Rightarrow> 64 word \<Rightarrow> byte list" where
  "bytes_at blob valPtr len = take (nat (sint len)) (drop (nat valPtr) blob)"

definition dictionary_value :: "StringDictionary \<Rightarrow> 64 word \<Rightarrow> exception + byte list" where
  "dictionary_value d code =
     (case getValueByIndex d code of
        Inl e \<Rightarrow> Inl e
      | Inr (valPtr, len) \<Rightarrow> Inr (bytes_at (dictionaryBlob d) valPtr len))"

text \<open>
  The rows a batch stands for, in order: a row whose \<open>notNull\<close> byte is zero is null
  ("nonzero = valid"; \<open>hasNulls\<close> is a cache and not part of the content); otherwise
  \<^item> a long, double or timestamp row is its value(s);
  \<^item> a decimal row is the batch's \<open>precision\<close> and \<open>scale\<close> and the row's unscaled value;
  \<^item> a string row is its pointer, its length and the bytes of \<open>blob\<close> they denote;
  \<^item> a dictionary-encoded row is its code and the bytes the \<open>dictionary\<close> gives for it
    ("the authoritative path is code \<rightarrow> dictionary lookup");
  \<^item> a struct row is the rows of its fields, a list or map row the rows of its range of the
    child(ren), a union row its tag and the row of that child at its offset.
\<close>

datatype cell = Null
  | Entry "nat list"
  | DecimalValue int int int
  | Text "64 word" "64 word" "byte list"
  | Coded "64 word" "exception + byte list"
  | Items "cell list"
  | Pairs "(cell \<times> cell) list"
  | Tagged nat cell

function row_at :: "batch \<Rightarrow> nat \<Rightarrow> cell" where
  "row_at (LongVectorBatch c xs) i =
     (if notNull c ! i = 0 then Null else Entry [unat (xs ! i)])"
| "row_at (DoubleVectorBatch c xs) i =
     (if notNull c ! i = 0 then Null else Entry [unat (xs ! i)])"
| "row_at (StringVectorBatch c ptrs lens blob codes use_codes) i =
     (if notNull c ! i = 0 then Null
      else Text (ptrs ! i) (lens ! i) (bytes_at blob (uint (ptrs ! i)) (lens ! i)))"
| "row_at (EncodedStringVectorBatch c ptrs lens blob codes use_codes dict index) i =
     (if notNull c ! i = 0 then Null
      else Coded (index ! i) (dictionary_value dict (index ! i)))"
| "row_at (StructVectorBatch c flds) i =
     (if notNull c ! i = 0 then Null else Items (map (\<lambda>f. row_at f i) flds))"
| "row_at (ListVectorBatch c offsets elements) i =
     (if notNull c ! i = 0 then Null
      else Items (map (row_at elements)
                    [nat (sint (offsets ! i))..<nat (sint (offsets ! (i + 1)))]))"
| "row_at (MapVectorBatch c offsets keys elements) i =
     (if notNull c ! i = 0 then Null
      else Pairs (map (\<lambda>e. (row_at keys e, row_at elements e))
                    [nat (sint (offsets ! i))..<nat (sint (offsets ! (i + 1)))]))"
| "row_at (UnionVectorBatch c tags offsets children) i =
     (if notNull c ! i = 0 \<or> length children \<le> unat (tags ! i) then Null
      else Tagged (unat (tags ! i)) (row_at (children ! unat (tags ! i)) (unat (offsets ! i))))"
| "row_at (Decimal64VectorBatch c precision scale vals readScales) i =
     (if notNull c ! i = 0 then Null
      else DecimalValue (sint precision) (sint scale) (sint (vals ! i)))"
| "row_at (Decimal128VectorBatch c precision scale vals readScales) i =
     (if notNull c ! i = 0 then Null
      else DecimalValue (sint precision) (sint scale) (sint (vals ! i)))"
| "row_at (TimestampVectorBatch c secs nanos) i =
     (if notNull c ! i = 0 then Null else Entry [unat (secs ! i), unat (nanos ! i)])"
  by pat_completeness auto
termination
proof (relation "measure (\<lambda>(b, i). size b)", goal_cases)
  case 1
  then show ?case by simp
next
  case (2 c flds i f)
  then show ?case by (simp add: size_list_estimation' less_Suc_eq_le)
next
  case 3
  then show ?case by simp
next
  case 4
  then show ?case by simp
next
  case 5
  then show ?case by simp
next
  case (6 c tags offsets children i)
  then have "children ! unat (tags ! i) \<in> set children" by simp
  then have "size (children ! unat (tags ! i)) \<le> size_list size children"
    by (rule size_list_estimation') simp
  then show ?case by simp
qed

definition rows :: "batch \<Rightarrow> cell list" where
  "rows b = map (row_at b) [0..<child_size b]"

text \<open>
  What a batch holds besides its rows: the batch without its per-row buffers, that is its
  variant, \<open>capacity\<close> and \<open>isEncoded\<close>, a decimal's \<open>precision\<close>, \<open>scale\<close> and \<open>readScales\<close>, a
  string's \<open>blob\<close>, \<open>codes\<close> and \<open>use_codes\<close>, an encoded string's \<open>dictionary\<close> and the
  pointer and length buffers it does not use, and the same of every child.
\<close>

definition erase :: "ColumnVectorBatch \<Rightarrow> ColumnVectorBatch" where
  "erase c = c\<lparr>numElements := 0, notNull := [], hasNulls := False\<rparr>"

fun frame :: "batch \<Rightarrow> batch" where
  "frame (LongVectorBatch c xs) = LongVectorBatch (erase c) []"
| "frame (DoubleVectorBatch c xs) = DoubleVectorBatch (erase c) []"
| "frame (StringVectorBatch c ptrs lens blob codes use_codes) =
     StringVectorBatch (erase c) [] [] blob codes use_codes"
| "frame (EncodedStringVectorBatch c ptrs lens blob codes use_codes dict index) =
     EncodedStringVectorBatch (erase c) ptrs lens blob codes use_codes dict []"
| "frame (StructVectorBatch c flds) = StructVectorBatch (erase c) (map frame flds)"
| "frame (ListVectorBatch c offsets elements) = ListVectorBatch (erase c) [] (frame elements)"
| "frame (MapVectorBatch c offsets keys elements) =
     MapVectorBatch (erase c) [] (frame keys) (frame elements)"
| "frame (UnionVectorBatch c tags offsets children) =
     UnionVectorBatch (erase c) [] [] (map frame children)"
| "frame (Decimal64VectorBatch c precision scale vals readScales) =
     Decimal64VectorBatch (erase c) precision scale [] readScales"
| "frame (Decimal128VectorBatch c precision scale vals readScales) =
     Decimal128VectorBatch (erase c) precision scale [] readScales"
| "frame (TimestampVectorBatch c secs nanos) = TimestampVectorBatch (erase c) [] []"

text \<open>
  For the proofs: the indices a selection keeps, an offset as a natural number, and the
  index ranges of the given rows of a list.
\<close>

definition picks :: "byte list \<Rightarrow> nat list" where
  "picks sel = filter (\<lambda>i. sel ! i \<noteq> 0) [0..<length sel]"

definition off :: "64 word list \<Rightarrow> nat \<Rightarrow> nat" where
  "off offsets i = nat (sint (offsets ! i))"

definition spans :: "64 word list \<Rightarrow> nat list \<Rightarrow> nat list list" where
  "spans offsets is = map (\<lambda>i. [off offsets i..<off offsets (Suc i)]) is"

text \<open>
  A list batch of three rows of lengths 2, 0 and 3 over a child of longs whose third row
  is null, used as a test input below.
\<close>

definition sample_list :: batch where
  "sample_list =
     ListVectorBatch
       \<lparr>capacity = 4, numElements = 3, notNull = [1, 1, 1, 0], hasNulls = False,
        isEncoded = False\<rparr>
       [0, 2, 2, 5, 0]
       (LongVectorBatch
          \<lparr>capacity = 8, numElements = 5, notNull = [1, 1, 0, 1, 1, 0, 0, 0], hasNulls = True,
           isEncoded = False\<rparr>
          [10, 20, 30, 40, 50, 0, 0, 0])"

text \<open>
  A struct batch of three rows with four fields: a decimal(10, 2), a string over the blob
  "abcde", a dictionary-encoded string over the keys "x" and "yz", and the list above. The
  second row of the string field is null.
\<close>

definition sample_struct :: batch where
  "sample_struct =
     StructVectorBatch
       \<lparr>capacity = 3, numElements = 3, notNull = [1, 1, 1], hasNulls = False,
        isEncoded = False\<rparr>
       [Decimal64VectorBatch
          \<lparr>capacity = 3, numElements = 3, notNull = [1, 1, 1], hasNulls = False,
           isEncoded = False\<rparr>
          10 2 [12345, - 5, 0] [],
        StringVectorBatch
          \<lparr>capacity = 3, numElements = 3, notNull = [1, 0, 1], hasNulls = True,
           isEncoded = False\<rparr>
          [0, 0, 2] [2, 0, 3] [97, 98, 99, 100, 101] [] False,
        EncodedStringVectorBatch
          \<lparr>capacity = 3, numElements = 3, notNull = [1, 1, 1], hasNulls = False,
           isEncoded = True\<rparr>
          [] [] [] [] False
          \<lparr>dictionaryBlob = [120, 121, 122], dictionaryOffset = [0, 1, 3]\<rparr>
          [1, 0, 1],
        sample_list]"

section \<open>Properties of the Bloom filter\<close>

subsection \<open>Initialisation and the layout it establishes\<close>

lemma unat_div8_succ: "unat (w div 8 + 1 :: 32 word) = unat (w div 8) + 1"
proof -
  have "unat (w div 8) = unat w div 8" by (simp add: unat_div)
  moreover have "unat w < 4294967296" using unsigned_less [of w] by simp
  ultimately have "unat (w div 8) + unat (1 :: 32 word) < 2 ^ LENGTH(32)" by simp
  then have "unat (w div 8 + 1) = unat (w div 8) + unat (1 :: 32 word)"
    by (simp only: unat_add_lem)
  then show ?thesis by simp
qed

lemma replicate_update_same: "(replicate n x)[k := x] = replicate n x"
  by (induction n arbitrary: k) (simp_all split: nat.split)

lemma init_for_write_fields:
  "init_for_write obn mh n fpp HASH_MURMUR3_X64_64 bf =
     (OK, bf\<lparr>m_data := Some (replicate (unat (obn n fpp div 8) + 1) 0),
             m_num_bytes := obn n fpp div 8,
             m_size := obn n fpp div 8 + 1,
             m_has_null := Some (unat (obn n fpp div 8)),
             m_hash_func := Some mh\<rparr>)"
  unfolding init_for_write_def Let_def
  by (simp add: unat_div8_succ replicate_update_same del: replicate.simps)

lemma init_for_write_OK_iff:
  "init_for_write obn mh n fpp s bf = (OK, f) \<longleftrightarrow>
     s = HASH_MURMUR3_X64_64 \<and>
     f = bf\<lparr>m_data := Some (replicate (unat (obn n fpp div 8) + 1) 0),
            m_num_bytes := obn n fpp div 8,
            m_size := obn n fpp div 8 + 1,
            m_has_null := Some (unat (obn n fpp div 8)),
            m_hash_func := Some mh\<rparr>"
proof (cases "s = HASH_MURMUR3_X64_64")
  case True
  then show ?thesis by (auto simp: init_for_write_fields simp del: replicate.simps)
next
  case False
  then show ?thesis by (simp add: init_for_write_def)
qed

lemma init_for_read_OK_iff:
  "init_for_read mh buf sz s bf = Inr (OK, f) \<longleftrightarrow>
     s = HASH_MURMUR3_X64_64 \<and> sz \<noteq> 0 \<and> unat sz \<le> length buf \<and>
     f = bf\<lparr>m_data := Some (take (unat sz) buf), m_num_bytes := sz - 1, m_size := sz,
            m_has_null := Some (unat (sz - 1)), m_hash_func := Some mh\<rparr>"
  unfolding init_for_read_def Let_def
  by (auto simp: not_less)

lemma unat_pred: "sz \<noteq> 0 \<Longrightarrow> unat (sz :: 32 word) = unat (sz - 1) + 1"
proof -
  assume nz: "sz \<noteq> 0"
  then have "unat (sz - 1) = unat sz - 1" by (rule unat_minus_one)
  moreover have "0 < unat sz" using nz by (simp add: unat_gt_0)
  ultimately show ?thesis by linarith
qed

lemma initialized_init_for_write:
  "init_for_write obn mh n fpp s bf = (OK, f) \<Longrightarrow> initialized f"
  by (simp add: init_for_write_OK_iff initialized_def unat_div8_succ del: replicate.simps)

lemma initialized_init_for_read:
  "init_for_read mh buf sz s bf = Inr (OK, f) \<Longrightarrow> initialized f"
proof -
  assume "init_for_read mh buf sz s bf = Inr (OK, f)"
  then have nz: "sz \<noteq> 0" and len: "unat sz \<le> length buf"
    and f: "f = bf\<lparr>m_data := Some (take (unat sz) buf), m_num_bytes := sz - 1, m_size := sz,
            m_has_null := Some (unat (sz - 1)), m_hash_func := Some mh\<rparr>"
    by (simp_all add: init_for_read_OK_iff)
  have b: "Suc (unat (sz - 1)) = unat sz" using unat_pred [OF nz] by simp
  have a: "min (length buf) (unat sz) = unat sz" using len by simp
  have "initialized (bf\<lparr>m_data := Some (take (unat sz) buf), m_num_bytes := sz - 1, m_size := sz,
            m_has_null := Some (unat (sz - 1)), m_hash_func := Some mh\<rparr>)"
    unfolding initialized_def by (simp add: a b)
  then show ?thesis by (simp only: f)
qed

text \<open>Concrete runs of the two paths, used as test inputs below.\<close>

lemma optimal_bit_num_zero: "optimal_bit_num 0 fpp = 256"
proof -
  have "next_power_of_two 0 = 1"
    unfolding next_power_of_two_def by (subst round_up_pow2.simps) simp
  then show ?thesis
    by (simp add: optimal_bit_num_def optimal_bits_def clamp_bytes_def MINIMUM_BYTES_def
        MAXIMUM_BYTES_def)
qed

lemma init_for_write_zero:
  "init_for_write optimal_bit_num mh 0 fpp HASH_MURMUR3_X64_64 BloomFilter_new =
     (OK, \<lparr>m_data = Some (replicate 33 0), m_num_bytes = 32, m_size = 33,
           m_has_null = Some 32, m_hash_func = Some mh\<rparr>)"
  by (simp add: init_for_write_fields optimal_bit_num_zero BloomFilter_new_def
      del: replicate.simps)

lemma init_for_read_three:
  "init_for_read mh [1, 2, 3] 3 HASH_MURMUR3_X64_64 BloomFilter_new =
     Inr (OK, \<lparr>m_data = Some [1, 2, 3], m_num_bytes = 2, m_size = 3,
               m_has_null = Some 2, m_hash_func = Some mh\<rparr>)"
  by (simp add: init_for_read_def BloomFilter_new_def)

subsection \<open>Probes and the operations that keep the layout\<close>

lemma length_set_probe: "length (set_probe p d) = length d"
  by (simp add: set_probe_def)

lemma nth_set_probe_other: "p div 8 \<noteq> k \<Longrightarrow> set_probe p d ! k = d ! k"
  by (simp add: set_probe_def)

lemma test_probe_set_probe_same: "p div 8 < length d \<Longrightarrow> test_probe (set_probe p d) p"
  by (simp add: set_probe_def test_probe_def bit_set_bit_iff)

lemma test_probe_set_probe_mono: "test_probe d q \<Longrightarrow> test_probe (set_probe p d) q"
proof -
  assume q: "test_probe d q"
  show ?thesis
  proof (cases "p div 8 < length d")
    case True
    with q show ?thesis
      by (cases "p div 8 = q div 8") (simp_all add: set_probe_def test_probe_def bit_set_bit_iff)
  next
    case False
    then have "set_probe p d = d" by (simp add: set_probe_def list_update_beyond)
    with q show ?thesis by simp
  qed
qed

lemma length_fold_set_probe: "length (fold set_probe ps d) = length d"
  by (induction ps arbitrary: d) (simp_all add: length_set_probe)

lemma fold_set_probe_mono: "test_probe d q \<Longrightarrow> test_probe (fold set_probe ps d) q"
  by (induction ps arbitrary: d) (simp_all add: test_probe_set_probe_mono)

lemma fold_set_probe_sets:
  "p \<in> set ps \<Longrightarrow> p div 8 < length d \<Longrightarrow> test_probe (fold set_probe ps d) p"
proof (induction ps arbitrary: d)
  case Nil
  then show ?case by simp
next
  case (Cons a ps)
  show ?case
  proof (cases "p = a")
    case True
    with Cons.prems have "test_probe (set_probe a d) p"
      by (simp add: test_probe_set_probe_same)
    then show ?thesis by (simp add: fold_set_probe_mono)
  next
    case False
    with Cons.prems have "p \<in> set ps" by simp
    then show ?thesis using Cons.IH [of "set_probe a d"] Cons.prems(2)
      by (simp add: length_set_probe)
  qed
qed

lemma fold_set_probe_other:
  "\<forall>p\<in>set ps. p div 8 \<noteq> k \<Longrightarrow> fold set_probe ps d ! k = d ! k"
  by (induction ps arbitrary: d) (simp_all add: nth_set_probe_other)

lemma bit_array_set_has_null:
  assumes "initialized bf" and "set_has_null b bf = Inr bf'"
  shows "bit_array bf q \<longleftrightarrow> bit_array bf' q"
proof -
  obtain d where d: "m_data bf = Some d" and k: "m_has_null bf = Some (unat (m_num_bytes bf))"
    using assms(1) by (auto simp: initialized_def split: option.splits)
  from assms(2) have bf': "bf' = bf\<lparr>m_data := Some (d[unat (m_num_bytes bf) := (if b then 1 else 0)])\<rparr>"
    by (auto simp: set_has_null_def d k split: if_splits)
  have "q < 8 * unat (m_num_bytes bf) \<Longrightarrow> q div 8 \<noteq> unat (m_num_bytes bf)"
    by auto
  then show ?thesis
    by (auto simp: bit_array_def d bf' test_probe_def)
qed

lemma set_has_null_fields:
  assumes "initialized bf" and "set_has_null b bf = Inr bf'"
  shows "initialized bf'" and "m_num_bytes bf' = m_num_bytes bf"
    and "m_hash_func bf' = m_hash_func bf" and "m_size bf' = m_size bf"
    and "m_has_null bf' = m_has_null bf"
  using assms
  by (auto simp: set_has_null_def initialized_def split: option.splits if_splits)

lemma add_hash_fields:
  assumes "initialized bf" and "add_hash probes h bf = Inr bf'"
  shows "initialized bf'" and "m_num_bytes bf' = m_num_bytes bf"
    and "m_hash_func bf' = m_hash_func bf" and "m_size bf' = m_size bf"
    and "m_has_null bf' = m_has_null bf"
  using assms
  by (auto simp: add_hash_def initialized_def Let_def length_fold_set_probe
      split: option.splits if_splits)

lemma bit_array_add_hash:
  assumes "add_hash probes h bf = Inr bf'" and "bit_array bf q"
  shows "bit_array bf' q"
  using assms
  by (auto simp: add_hash_def bit_array_def Let_def fold_set_probe_mono
      split: option.splits if_splits)

lemma bit_array_add_hash_probes:
  assumes "add_hash probes h bf = Inr bf'" and "p \<in> set (probes h (m_num_bytes bf))"
  shows "bit_array bf' p"
proof -
  obtain d where d: "m_data bf = Some d"
    using assms(1) by (auto simp: add_hash_def split: option.splits)
  let ?ps = "probes h (m_num_bytes bf)"
  from assms(1) have ok: "probes_in_array ?ps bf d"
    and bf': "bf' = bf\<lparr>m_data := Some (fold set_probe ?ps d)\<rparr>"
    by (auto simp: add_hash_def d Let_def split: if_splits)
  from ok assms(2) have p: "p < 8 * unat (m_num_bytes bf)" and len: "unat (m_num_bytes bf) \<le> length d"
    by (auto simp: probes_in_array_def list_all_iff)
  then have "p div 8 < length d" by auto
  with assms(2) have "test_probe (fold set_probe ?ps d) p" by (rule fold_set_probe_sets)
  with p show ?thesis by (simp add: bit_array_def bf')
qed

lemma test_hash_True:
  assumes "initialized bf" and "list_all (\<lambda>p. bit_array bf p) (probes h (m_num_bytes bf))"
  shows "test_hash probes h bf = Inr True"
proof -
  obtain d where d: "m_data bf = Some d" and len: "length d = unat (m_size bf)"
    and sz: "unat (m_size bf) = unat (m_num_bytes bf) + 1"
    using assms(1) by (auto simp: initialized_def split: option.splits)
  from assms(2) have "probes_in_array (probes h (m_num_bytes bf)) bf d"
    and "list_all (test_probe d) (probes h (m_num_bytes bf))"
    using len sz by (auto simp: probes_in_array_def bit_array_def d list_all_iff)
  then show ?thesis by (simp add: test_hash_def d Let_def)
qed

lemma add_bytes_fields:
  assumes "initialized bf" and "add_bytes (add_hash probes) buf sz bf = Inr bf'"
  shows "initialized bf'" and "m_num_bytes bf' = m_num_bytes bf"
    and "m_hash_func bf' = m_hash_func bf" and "m_size bf' = m_size bf"
    and "m_has_null bf' = m_has_null bf"
  using assms set_has_null_fields [of bf True bf'] add_hash_fields [of bf probes _ bf']
  by (auto simp: add_bytes_def hash_def split: option.splits sum.splits)

lemma bit_array_add_bytes:
  assumes "initialized bf" and "add_bytes (add_hash probes) buf sz bf = Inr bf'"
    and "bit_array bf q"
  shows "bit_array bf' q"
  using assms bit_array_set_has_null [of bf True bf' q] bit_array_add_hash [of probes _ bf bf' q]
  by (auto simp: add_bytes_def hash_def split: option.splits sum.splits)

lemma add_all_fields:
  assumes "initialized bf" and "add_all (add_hash probes) vs bf = Inr bf'"
  shows "initialized bf' \<and> m_num_bytes bf' = m_num_bytes bf
    \<and> m_hash_func bf' = m_hash_func bf \<and> m_size bf' = m_size bf
    \<and> m_has_null bf' = m_has_null bf"
  using assms
proof (induction vs arbitrary: bf)
  case Nil
  then show ?case by simp
next
  case (Cons v vs)
  obtain buf sz where v: "v = (buf, sz)" by (cases v)
  from Cons.prems(2) obtain bf1 where
    a: "add_bytes (add_hash probes) buf sz bf = Inr bf1" and
    b: "add_all (add_hash probes) vs bf1 = Inr bf'"
    by (auto simp: v split: sum.splits)
  from add_bytes_fields [OF Cons.prems(1) a] Cons.IH [OF _ b]
  show ?case by simp
qed

lemma bit_array_add_all:
  assumes "initialized bf" and "add_all (add_hash probes) vs bf = Inr bf'"
    and "bit_array bf q"
  shows "bit_array bf' q"
  using assms
proof (induction vs arbitrary: bf)
  case Nil
  then show ?case by simp
next
  case (Cons v vs)
  obtain buf sz where v: "v = (buf, sz)" by (cases v)
  from Cons.prems(2) obtain bf1 where
    a: "add_bytes (add_hash probes) buf sz bf = Inr bf1" and
    b: "add_all (add_hash probes) vs bf1 = Inr bf'"
    by (auto simp: v split: sum.splits)
  have "initialized bf1" using Cons.prems(1) a by (rule add_bytes_fields)
  moreover have "bit_array bf1 q" using Cons.prems(1) a Cons.prems(3) by (rule bit_array_add_bytes)
  ultimately show ?case using b by (simp add: Cons.IH)
qed

lemma has_null_byte:
  assumes "initialized bf"
  shows "\<exists>d. m_data bf = Some d \<and> unat (m_num_bytes bf) < length d
           \<and> has_null bf = Inr (d ! unat (m_num_bytes bf) \<noteq> 0)"
  using assms by (auto simp: initialized_def has_null_def split: option.splits)

lemma set_has_null_then_has_null:
  assumes "initialized bf"
  shows "\<exists>bf'. set_has_null b bf = Inr bf' \<and> has_null bf' = Inr b"
  using assms
  by (auto simp: initialized_def set_has_null_def has_null_def split: option.splits)

lemma add_bytes_returns:
  assumes "initialized bf"
    and "\<And>h. list_all (\<lambda>p. p < 8 * unat (m_num_bytes bf)) (probes h (m_num_bytes bf))"
  shows "\<exists>bf'. add_bytes (add_hash probes) buf sz bf = Inr bf'"
proof (cases buf)
  case None
  then show ?thesis
    using set_has_null_then_has_null [OF assms(1), of True] by (auto simp: add_bytes_def)
next
  case (Some v)
  from assms(1) obtain d f where d: "m_data bf = Some d" and f: "m_hash_func bf = Some f"
    and len: "length d = unat (m_size bf)" and sz: "unat (m_size bf) = unat (m_num_bytes bf) + 1"
    by (auto simp: initialized_def split: option.splits)
  have "probes_in_array (probes h (m_num_bytes bf)) bf d" for h
    using assms(2) [of h] len sz by (simp add: probes_in_array_def)
  then show ?thesis
    by (simp add: Some add_bytes_def hash_def f add_hash_def d Let_def)
qed

lemma init_for_read_own_buffer:
  assumes "initialized F" and "m_hash_func F = Some mh" and "m_data F = Some d"
  shows "init_for_read mh d (m_size F) HASH_MURMUR3_X64_64 bf1 = Inr (OK, F)"
proof -
  from assms(1,3) have len: "length d = unat (m_size F)"
    and sz: "unat (m_size F) = unat (m_num_bytes F) + 1"
    and hn: "m_has_null F = Some (unat (m_num_bytes F))"
    by (auto simp: initialized_def)
  from sz have nz: "m_size F \<noteq> 0" by auto
  have "unat (m_size F - 1) = unat (m_num_bytes F)"
    using unat_pred [OF nz] sz by simp
  then have nb: "m_size F - 1 = m_num_bytes F" by (simp only: word_unat_eq_iff)
  show ?thesis
    unfolding init_for_read_OK_iff using nz len hn assms(2,3) by (simp add: nb)
qed

subsection \<open>Rounding to a power of two and clamping\<close>

lemma round_up_pow2_power:
  "\<exists>i. k = 2 ^ i \<Longrightarrow> \<exists>j. round_up_pow2 k m = 2 ^ j"
proof (induction k m rule: round_up_pow2.induct)
  case (1 k m)
  show ?case
  proof (cases "k = 0 \<or> m \<le> k")
    case True
    with "1.prems" show ?thesis by (subst round_up_pow2.simps) simp
  next
    case False
    from "1.prems" obtain i where "k = 2 ^ i" ..
    then have "2 * k = 2 ^ Suc i" by simp
    then have "\<exists>i. 2 * k = 2 ^ i" ..
    with False "1.IH" have "\<exists>j. round_up_pow2 (2 * k) m = 2 ^ j" by simp
    with False show ?thesis by (subst round_up_pow2.simps) simp
  qed
qed

lemma round_up_pow2_ge: "0 < k \<Longrightarrow> m \<le> round_up_pow2 k m"
proof (induction k m rule: round_up_pow2.induct)
  case (1 k m)
  show ?case
  proof (cases "k = 0 \<or> m \<le> k")
    case True
    with "1.prems" show ?thesis by (subst round_up_pow2.simps) simp
  next
    case False
    with "1.IH" "1.prems" have "m \<le> round_up_pow2 (2 * k) m" by simp
    with False show ?thesis by (subst round_up_pow2.simps) simp
  qed
qed

lemma round_up_pow2_less: "0 < k \<Longrightarrow> k < 2 * m \<Longrightarrow> round_up_pow2 k m < 2 * m"
proof (induction k m rule: round_up_pow2.induct)
  case (1 k m)
  show ?case
  proof (cases "k = 0 \<or> m \<le> k")
    case True
    with "1.prems" show ?thesis by (subst round_up_pow2.simps) simp
  next
    case False
    with "1.IH" "1.prems" have "round_up_pow2 (2 * k) m < 2 * m" by simp
    with False show ?thesis by (subst round_up_pow2.simps) simp
  qed
qed

lemma next_power_of_two_rounds_up:
  "(\<exists>j. next_power_of_two m = 2 ^ j) \<and> m \<le> next_power_of_two m
     \<and> (1 \<le> m \<longrightarrow> next_power_of_two m < 2 * m)"
proof -
  have "\<exists>i. (1::nat) = 2 ^ i" by (rule exI [of _ 0]) simp
  then have "\<exists>j. round_up_pow2 1 m = 2 ^ j" by (rule round_up_pow2_power)
  moreover have "m \<le> round_up_pow2 1 m" by (rule round_up_pow2_ge) simp
  moreover have "1 \<le> m \<Longrightarrow> round_up_pow2 1 m < 2 * m" by (rule round_up_pow2_less) simp_all
  ultimately show ?thesis by (simp add: next_power_of_two_def)
qed

lemma clamp_bytes_bounds: "32 \<le> clamp_bytes b \<and> clamp_bytes b \<le> 128 * 1024 * 1024"
  by (simp add: clamp_bytes_def MINIMUM_BYTES_def MAXIMUM_BYTES_def)

lemma clamp_bytes_eq: "clamp_bytes b = max 32 (min (128 * 1024 * 1024) b)"
  by (simp add: clamp_bytes_def MINIMUM_BYTES_def MAXIMUM_BYTES_def)

lemma pow2_mono: "a \<le> b \<Longrightarrow> (2::nat) ^ a \<le> 2 ^ b"
  by (rule power_increasing) simp_all

lemma clamp_bytes_power: "\<exists>k\<le>27. clamp_bytes (2 ^ j div 8) = 2 ^ k"
proof -
  have b: "(2::nat) ^ j div 8 = (if j < 3 then 0 else 2 ^ (j - 3))"
  proof (cases "j < 3")
    case True
    then have "(2::nat) ^ j < 2 ^ 3" by (simp only: power_strict_increasing_iff)
    then show ?thesis using True by simp
  next
    case False
    then have "(2::nat) ^ j = 2 ^ ((j - 3) + 3)" by simp
    also have "\<dots> = 2 ^ (j - 3) * 2 ^ 3" by (rule power_add)
    finally have "(2::nat) ^ j = 2 ^ (j - 3) * 8" by simp
    then show ?thesis using False by simp
  qed
  show ?thesis
  proof (cases "j < 8")
    case True
    then have "(2::nat) ^ j div 8 \<le> 32"
    proof (cases "j < 3")
      case True
      then show ?thesis by (simp add: b)
    next
      case False
      with True have "(2::nat) ^ (j - 3) \<le> 2 ^ 5" by (intro pow2_mono) simp
      with False show ?thesis by (simp add: b)
    qed
    then have "clamp_bytes (2 ^ j div 8) = 2 ^ 5" by (simp add: clamp_bytes_eq)
    then show ?thesis by (intro exI [of _ 5]) simp
  next
    case False
    then have b': "(2::nat) ^ j div 8 = 2 ^ (j - 3)" by (simp add: b)
    have lo: "(2::nat) ^ 5 \<le> 2 ^ (j - 3)" using False by (intro pow2_mono) simp
    show ?thesis
    proof (cases "j - 3 \<le> 27")
      case True
      then have "(2::nat) ^ (j - 3) \<le> 2 ^ 27" by (intro pow2_mono)
      with lo have "clamp_bytes (2 ^ j div 8) = 2 ^ (j - 3)" by (simp add: clamp_bytes_eq b')
      with True show ?thesis by blast
    next
      case False
      then have "(2::nat) ^ 27 \<le> 2 ^ (j - 3)" by (intro pow2_mono) simp
      then have "clamp_bytes (2 ^ j div 8) = 2 ^ 27" by (simp add: clamp_bytes_eq b')
      then show ?thesis by (intro exI [of _ 27]) simp
    qed
  qed
qed

lemma pow2_and_pred: "k < 32 \<Longrightarrow> (2 ^ k :: 32 word) AND (2 ^ k - 1) = 0"
  by (rule bit_eqI) (auto simp: bit_simps simp flip: mask_eq_decr_exp)

lemma optimal_bit_num_div8:
  "unat (optimal_bit_num n p div 8) = clamp_bytes (next_power_of_two (optimal_bits n p) div 8)"
proof -
  let ?c = "clamp_bytes (next_power_of_two (optimal_bits n p) div 8)"
  have "?c \<le> 128 * 1024 * 1024" using clamp_bytes_bounds [of "next_power_of_two (optimal_bits n p) div 8"] by simp
  then have "8 * ?c < 2 ^ LENGTH(32)" by simp
  then have "unat (of_nat (8 * ?c) :: 32 word) = 8 * ?c" by (simp only: unat_of_nat mod_less)
  then show ?thesis by (simp add: optimal_bit_num_def unat_div)
qed

text \<open>One expected key at a false-positive rate of one half: at most 2 bits before rounding.\<close>

lemma optimal_bits_one_half: "optimal_bits 1 (1 / 2) \<le> 2"
proof -
  have "exp (1 / 2 :: real) \<le> 2" using exp_bound_half [of "1 / 2 :: real"] by simp
  then have l: "1 / 2 \<le> ln (2 :: real)"
    by (rule ln_ge_iff [THEN iffD2, rotated]) simp
  then have pos: "0 < ln (2 :: real)" by simp
  have "- real (unat (1 :: 64 word)) * ln (1 / 2) / (ln 2)\<^sup>2 = ln 2 / (ln (2 :: real))\<^sup>2"
    by (simp add: ln_div)
  also have "\<dots> = 1 / ln 2" using pos by (simp add: power2_eq_square)
  also have "\<dots> \<le> 2"
  proof -
    have "1 \<le> 2 * ln (2 :: real)" using l by simp
    then show ?thesis using pos by (simp add: divide_le_eq)
  qed
  finally have "\<lceil>- real (unat (1 :: 64 word)) * ln (1 / 2) / (ln 2)\<^sup>2\<rceil> \<le> 2"
    by (simp add: ceiling_le_iff)
  then show ?thesis by (simp add: optimal_bits_def)
qed

lemma next_power_of_two_small: "m \<le> 2 \<Longrightarrow> next_power_of_two m div 8 = 0"
proof -
  assume m: "m \<le> 2"
  have "next_power_of_two m < 8"
  proof (cases "1 \<le> m")
    case True
    then have "next_power_of_two m < 2 * m"
      using next_power_of_two_rounds_up [of m] by blast
    with m show ?thesis by simp
  next
    case False
    then have "m = 0" by simp
    moreover have "next_power_of_two 0 = 1"
      unfolding next_power_of_two_def by (subst round_up_pow2.simps) simp
    ultimately show ?thesis by simp
  qed
  then show ?thesis by simp
qed

text \<open>The \<open>DCHECK\<close> of the write path never fires with the helper modelled from the spec.\<close>

lemma optimal_bit_num_power_of_two:
  "(optimal_bit_num n p div 8) AND (optimal_bit_num n p div 8 - 1) = 0"
proof -
  let ?nb = "optimal_bit_num n p div 8"
  let ?m = "optimal_bits n p"
  obtain j where j: "next_power_of_two ?m = 2 ^ j"
    using next_power_of_two_rounds_up [of ?m] by blast
  obtain k where k: "k \<le> 27" and ck: "clamp_bytes (next_power_of_two ?m div 8) = 2 ^ k"
    using clamp_bytes_power [of j] by (auto simp: j)
  have "?nb = of_nat (unat ?nb)" by simp
  also have "\<dots> = of_nat (2 ^ k)" by (simp only: optimal_bit_num_div8 ck)
  also have "\<dots> = 2 ^ k" by simp
  finally have "?nb = 2 ^ k" .
  moreover have "k < 32" using k by simp
  ultimately show ?thesis by (simp only: pow2_and_pred)
qed

lemma init_for_write_debug_passes:
  "init_for_write_debug optimal_bit_num mh n p strategy bf
     = Inr (init_for_write optimal_bit_num mh n p strategy bf)"
  by (simp add: init_for_write_debug_def optimal_bit_num_power_of_two)

subsection \<open>The specified properties of the Bloom filter\<close>

text \<open>
  C1. No false negatives: on a filter laid out as \<open>init\<close> leaves it, once
  \<open>add_bytes(v, size)\<close> with a non-null \<open>v\<close> has returned, \<open>test_bytes(v, size)\<close> returns true,
  also after any further run of \<open>add_bytes\<close> calls (null or not) on the same filter. The
  subclass is the one modelled from the spec, for every choice of probe positions.
\<close>

theorem no_false_negatives:
  assumes "initialized bf"
    and "add_bytes (add_hash probes) (Some v) sz bf = Inr bf1"
    and "add_all (add_hash probes) vs bf1 = Inr bf2"
  shows "test_bytes (test_hash probes) (Some v) sz bf2 = Inr True"
proof -
  from assms(2) obtain code where
    code: "hash bf v sz = Inr code" and add: "add_hash probes code bf = Inr bf1"
    by (auto simp: add_bytes_def split: sum.splits)
  have i1: "initialized bf1" and nb1: "m_num_bytes bf1 = m_num_bytes bf"
    and hf1: "m_hash_func bf1 = m_hash_func bf"
    using add_hash_fields [OF assms(1) add] by simp_all
  have all2: "initialized bf2 \<and> m_num_bytes bf2 = m_num_bytes bf1
    \<and> m_hash_func bf2 = m_hash_func bf1 \<and> m_size bf2 = m_size bf1
    \<and> m_has_null bf2 = m_has_null bf1"
    using i1 assms(3) by (rule add_all_fields)
  have code2: "hash bf2 v sz = Inr code"
    using code all2 hf1 by (simp add: hash_def)
  have "bit_array bf2 p" if "p \<in> set (probes code (m_num_bytes bf))" for p
  proof -
    have "bit_array bf1 p" using add that by (rule bit_array_add_hash_probes)
    with i1 assms(3) show ?thesis by (rule bit_array_add_all)
  qed
  then have "list_all (\<lambda>p. bit_array bf2 p) (probes code (m_num_bytes bf2))"
    using all2 nb1 by (simp add: list_all_iff)
  with all2 have "test_hash probes code bf2 = Inr True"
    by (simp add: test_hash_True)
  with code2 show ?thesis by (simp add: test_bytes_def)
qed

theorem no_false_negatives_witness:
  "initialized \<lparr>m_data = Some [0, 0, 0], m_num_bytes = 2, m_size = 3, m_has_null = Some 2,
       m_hash_func = Some (\<lambda>bs n seed. seed + ucast n)\<rparr>
   \<and> add_bytes (add_hash (\<lambda>h nb. [unat h mod (8 * unat nb)])) (Some [97]) 1
       \<lparr>m_data = Some [0, 0, 0], m_num_bytes = 2, m_size = 3, m_has_null = Some 2,
        m_hash_func = Some (\<lambda>bs n seed. seed + ucast n)\<rparr>
     = Inr \<lparr>m_data = Some [128, 0, 0], m_num_bytes = 2, m_size = 3, m_has_null = Some 2,
        m_hash_func = Some (\<lambda>bs n seed. seed + ucast n)\<rparr>
   \<and> add_all (add_hash (\<lambda>h nb. [unat h mod (8 * unat nb)])) [(None, 0), (Some [98, 99], 2)]
       \<lparr>m_data = Some [128, 0, 0], m_num_bytes = 2, m_size = 3, m_has_null = Some 2,
        m_hash_func = Some (\<lambda>bs n seed. seed + ucast n)\<rparr>
     = Inr \<lparr>m_data = Some [128, 1, 1], m_num_bytes = 2, m_size = 3, m_has_null = Some 2,
        m_hash_func = Some (\<lambda>bs n seed. seed + ucast n)\<rparr>
   \<and> test_bytes (test_hash (\<lambda>h nb. [unat h mod (8 * unat nb)])) (Some [97]) 1
       \<lparr>m_data = Some [128, 1, 1], m_num_bytes = 2, m_size = 3, m_has_null = Some 2,
        m_hash_func = Some (\<lambda>bs n seed. seed + ucast n)\<rparr>
     = Inr True"
proof -
  let ?mh = "(\<lambda>bs n seed. seed + ucast n) :: hash_func"
  let ?P = "(\<lambda>h nb. [unat h mod (8 * unat nb)]) :: 64 word \<Rightarrow> 32 word \<Rightarrow> nat list"
  let ?F = "\<lparr>m_data = Some [0, 0, 0], m_num_bytes = 2, m_size = 3, m_has_null = Some 2,
       m_hash_func = Some ?mh\<rparr>"
  let ?F1 = "\<lparr>m_data = Some [128, 0, 0], m_num_bytes = 2, m_size = 3, m_has_null = Some 2,
       m_hash_func = Some ?mh\<rparr>"
  let ?F2 = "\<lparr>m_data = Some [128, 1, 1], m_num_bytes = 2, m_size = 3, m_has_null = Some 2,
       m_hash_func = Some ?mh\<rparr>"
  have h1: "initialized ?F" by (simp add: initialized_def)
  have h2: "add_bytes (add_hash ?P) (Some [97]) 1 ?F = Inr ?F1"
    by (simp add: add_bytes_def add_hash_def hash_def DEFAULT_SEED_def probes_in_array_def
        set_probe_def Let_def)
  have h3: "add_all (add_hash ?P) [(None, 0), (Some [98, 99], 2)] ?F1 = Inr ?F2"
    by (simp add: add_bytes_def add_hash_def hash_def DEFAULT_SEED_def probes_in_array_def
        set_probe_def set_has_null_def Let_def)
  from no_false_negatives [OF h1 h2 h3]
  have h4: "test_bytes (test_hash ?P) (Some [97]) 1 ?F2 = Inr True" .
  from h1 h2 h3 h4 show ?thesis by (intro conjI)
qed

text \<open>
  C2. For \<open>n \<ge> 1\<close> and \<open>0 < p < 1\<close> the write path succeeds and leaves a \<open>_num_bytes\<close> that
  is a power of two within \<open>[32, 128 * 1024 * 1024]\<close>, namely the clamped eighth of the bit
  count \<open>ceil(-n * ln(p) / (ln 2)^2)\<close> rounded up to the next power of two; the \<open>DCHECK\<close> of
  the write path holds. The helper is the one modelled from the spec.
\<close>

theorem init_for_write_num_bytes:
  assumes "1 \<le> unat n" and "0 < p" and "p < 1"
  shows "\<exists>bf'. init_for_write optimal_bit_num mh n p HASH_MURMUR3_X64_64 bf = (OK, bf')
           \<and> (\<exists>k. unat (num_bytes bf') = 2 ^ k)
           \<and> 32 \<le> unat (num_bytes bf') \<and> unat (num_bytes bf') \<le> 128 * 1024 * 1024
           \<and> unat (num_bytes bf') =
               max 32 (min (128 * 1024 * 1024)
                 (next_power_of_two (nat \<lceil>- real (unat n) * ln p / (ln 2)\<^sup>2\<rceil>) div 8))
           \<and> num_bytes bf' AND (num_bytes bf' - 1) = 0"
proof -
  let ?m = "optimal_bits n p"
  let ?c = "clamp_bytes (next_power_of_two ?m div 8)"
  let ?bf = "bf\<lparr>m_data := Some (replicate (unat (optimal_bit_num n p div 8) + 1) 0),
             m_num_bytes := optimal_bit_num n p div 8,
             m_size := optimal_bit_num n p div 8 + 1,
             m_has_null := Some (unat (optimal_bit_num n p div 8)),
             m_hash_func := Some mh\<rparr>"
  have init: "init_for_write optimal_bit_num mh n p HASH_MURMUR3_X64_64 bf = (OK, ?bf)"
    by (rule init_for_write_fields)
  have nb: "unat (num_bytes ?bf) = ?c"
    by (simp add: num_bytes_def optimal_bit_num_div8)
  obtain j where j: "next_power_of_two ?m = 2 ^ j"
    using next_power_of_two_rounds_up [of ?m] by blast
  obtain k where k: "k \<le> 27" and ck: "?c = 2 ^ k"
    using clamp_bytes_power [of j] by (auto simp: j)
  have pow: "\<exists>k. unat (num_bytes ?bf) = 2 ^ k" using nb ck by auto
  have lo: "32 \<le> unat (num_bytes ?bf)" and hi: "unat (num_bytes ?bf) \<le> 128 * 1024 * 1024"
    using clamp_bytes_bounds [of "next_power_of_two ?m div 8"] by (simp_all only: nb)
  have formula: "unat (num_bytes ?bf) =
      max 32 (min (128 * 1024 * 1024)
        (next_power_of_two (nat \<lceil>- real (unat n) * ln p / (ln 2)\<^sup>2\<rceil>) div 8))"
    by (simp only: nb clamp_bytes_eq optimal_bits_def)
  have "num_bytes ?bf = of_nat (unat (num_bytes ?bf))" by simp
  also have "\<dots> = of_nat (2 ^ k)" by (simp only: nb ck)
  also have "\<dots> = 2 ^ k" by simp
  finally have "num_bytes ?bf = 2 ^ k" .
  moreover have "k < 32" using k by simp
  ultimately have dcheck: "num_bytes ?bf AND (num_bytes ?bf - 1) = 0"
    by (simp only: pow2_and_pred)
  from init pow lo hi formula dcheck show ?thesis
    by (intro exI [of _ ?bf] conjI)
qed

theorem init_for_write_num_bytes_witness:
  "1 \<le> unat (1 :: 64 word) \<and> (0 :: real) < 1 / 2 \<and> (1 / 2 :: real) < 1
   \<and> (\<exists>bf'. init_for_write optimal_bit_num (\<lambda>bs n seed. seed + ucast n) 1 (1 / 2)
               HASH_MURMUR3_X64_64 BloomFilter_new = (OK, bf')
           \<and> unat (num_bytes bf') = 2 ^ 5
           \<and> unat (num_bytes bf') = 32
           \<and> num_bytes bf' AND (num_bytes bf' - 1) = 0)"
proof -
  have h1: "1 \<le> unat (1 :: 64 word)" by simp
  have h2: "(0 :: real) < 1 / 2" by simp
  have h3: "(1 / 2 :: real) < 1" by simp
  from init_for_write_num_bytes [OF h1 h2 h3, of "\<lambda>bs n seed. seed + ucast n" BloomFilter_new]
  obtain bf' where
    a: "init_for_write optimal_bit_num (\<lambda>bs n seed. seed + ucast n) 1 (1 / 2)
          HASH_MURMUR3_X64_64 BloomFilter_new = (OK, bf')"
    and b: "unat (num_bytes bf') =
               max 32 (min (128 * 1024 * 1024)
                 (next_power_of_two (nat \<lceil>- real (unat (1 :: 64 word)) * ln (1 / 2) / (ln 2)\<^sup>2\<rceil>)
                    div 8))"
    and c: "num_bytes bf' AND (num_bytes bf' - 1) = 0"
    by blast
  have "next_power_of_two (nat \<lceil>- real (unat (1 :: 64 word)) * ln (1 / 2) / (ln 2)\<^sup>2\<rceil>) div 8 = 0"
    using optimal_bits_one_half by (intro next_power_of_two_small) (simp add: optimal_bits_def)
  with b have v: "unat (num_bytes bf') = 32" by (simp only:)
  then have p: "unat (num_bytes bf') = 2 ^ 5" by simp
  from a p v c have "init_for_write optimal_bit_num (\<lambda>bs n seed. seed + ucast n) 1 (1 / 2)
               HASH_MURMUR3_X64_64 BloomFilter_new = (OK, bf')
           \<and> unat (num_bytes bf') = 2 ^ 5
           \<and> unat (num_bytes bf') = 32
           \<and> num_bytes bf' AND (num_bytes bf' - 1) = 0" by (intro conjI)
  then have "\<exists>bf'. init_for_write optimal_bit_num (\<lambda>bs n seed. seed + ucast n) 1 (1 / 2)
               HASH_MURMUR3_X64_64 BloomFilter_new = (OK, bf')
           \<and> unat (num_bytes bf') = 2 ^ 5
           \<and> unat (num_bytes bf') = 32
           \<and> num_bytes bf' AND (num_bytes bf' - 1) = 0" by (rule exI)
  with h1 h2 h3 show ?thesis by (intro conjI)
qed

text \<open>
  C5. Null round trip: on a filter laid out as \<open>init\<close> leaves it, \<open>add_bytes(nullptr, sz)\<close>
  returns and a following \<open>test_bytes(nullptr, sz')\<close> is true, whatever the subclass; and right
  after a successful write-path \<open>init\<close>, \<open>test_bytes(nullptr, sz)\<close> is false.
\<close>

theorem null_round_trip:
  "(initialized bf \<longrightarrow>
      (\<exists>bf'. add_bytes ah None sz bf = Inr bf' \<and> test_bytes th None sz' bf' = Inr True))
   \<and> (init_for_write obn mh n fpp strategy bf0 = (OK, f) \<longrightarrow>
        test_bytes th None sz f = Inr False)"
proof (intro conjI impI)
  assume "initialized bf"
  then show "\<exists>bf'. add_bytes ah None sz bf = Inr bf' \<and> test_bytes th None sz' bf' = Inr True"
    using set_has_null_then_has_null [of bf True] by (simp add: add_bytes_def test_bytes_def)
next
  assume "init_for_write obn mh n fpp strategy bf0 = (OK, f)"
  then have f: "f = bf0\<lparr>m_data := Some (replicate (unat (obn n fpp div 8) + 1) 0),
            m_num_bytes := obn n fpp div 8,
            m_size := obn n fpp div 8 + 1,
            m_has_null := Some (unat (obn n fpp div 8)),
            m_hash_func := Some mh\<rparr>"
    by (simp add: init_for_write_OK_iff)
  have "replicate (unat (obn n fpp div 8) + 1) (0 :: byte) ! unat (obn n fpp div 8) = 0"
    by (rule nth_replicate) simp
  then show "test_bytes th None sz f = Inr False"
    by (simp add: test_bytes_def has_null_def f del: replicate.simps)
qed

theorem null_round_trip_witness:
  "initialized \<lparr>m_data = Some [128, 0, 0], m_num_bytes = 2, m_size = 3, m_has_null = Some 2,
       m_hash_func = Some (\<lambda>bs n seed. seed + ucast n)\<rparr>
   \<and> (\<exists>bf'. add_bytes (add_hash (\<lambda>h nb. [unat h mod (8 * unat nb)])) None 5
          \<lparr>m_data = Some [128, 0, 0], m_num_bytes = 2, m_size = 3, m_has_null = Some 2,
           m_hash_func = Some (\<lambda>bs n seed. seed + ucast n)\<rparr> = Inr bf'
        \<and> test_bytes (test_hash (\<lambda>h nb. [unat h mod (8 * unat nb)])) None 9 bf' = Inr True)
   \<and> init_for_write optimal_bit_num (\<lambda>bs n seed. seed + ucast n) 0 (1 / 20)
         HASH_MURMUR3_X64_64 BloomFilter_new
       = (OK, \<lparr>m_data = Some (replicate 33 0), m_num_bytes = 32, m_size = 33,
              m_has_null = Some 32, m_hash_func = Some (\<lambda>bs n seed. seed + ucast n)\<rparr>)
   \<and> test_bytes (test_hash (\<lambda>h nb. [unat h mod (8 * unat nb)])) None 5
         \<lparr>m_data = Some (replicate 33 0), m_num_bytes = 32, m_size = 33,
          m_has_null = Some 32, m_hash_func = Some (\<lambda>bs n seed. seed + ucast n)\<rparr>
       = Inr False"
proof -
  let ?mh = "(\<lambda>bs n seed. seed + ucast n) :: hash_func"
  let ?P = "(\<lambda>h nb. [unat h mod (8 * unat nb)]) :: 64 word \<Rightarrow> 32 word \<Rightarrow> nat list"
  let ?F = "\<lparr>m_data = Some [128, 0, 0], m_num_bytes = 2, m_size = 3, m_has_null = Some 2,
       m_hash_func = Some ?mh\<rparr>"
  let ?W = "\<lparr>m_data = Some (replicate 33 0), m_num_bytes = 32, m_size = 33,
       m_has_null = Some 32, m_hash_func = Some ?mh\<rparr>"
  have h1: "initialized ?F" by (simp add: initialized_def)
  have h2: "init_for_write optimal_bit_num ?mh 0 (1 / 20) HASH_MURMUR3_X64_64 BloomFilter_new
              = (OK, ?W)"
    by (rule init_for_write_zero)
  note t = null_round_trip [of ?F "add_hash ?P" 5 "test_hash ?P" 9 optimal_bit_num ?mh 0 "1 / 20"
      HASH_MURMUR3_X64_64 BloomFilter_new ?W]
  from t h1 have c1: "\<exists>bf'. add_bytes (add_hash ?P) None 5 ?F = Inr bf'
      \<and> test_bytes (test_hash ?P) None 9 bf' = Inr True" by blast
  from t h2 have c2: "test_bytes (test_hash ?P) None 5 ?W = Inr False" by blast
  from h1 c1 h2 c2 show ?thesis by (intro conjI)
qed

text \<open>
  C6. Serialization round trip: for a filter \<open>F\<close> built by the write path and populated by
  \<open>add_bytes\<close> calls, the read-path \<open>init\<close> on \<open>F.data()\<close> and \<open>F.size()\<close> with the same
  strategy succeeds, and the filter \<open>G\<close> it builds answers every \<open>test_bytes\<close> (null pointer
  included, whatever \<open>test_hash\<close> the subclass has) as \<open>F\<close> does.
\<close>

theorem serialization_round_trip:
  assumes "init_for_write obn mh n fpp strategy bf0 = (OK, F0)"
    and "add_all (add_hash probes) vs F0 = Inr F"
  shows "\<exists>d G. data F = Some d
           \<and> init_for_read mh d (size_bytes F) strategy bf1 = Inr (OK, G)
           \<and> (\<forall>th v sz. test_bytes th v sz G = test_bytes th v sz F)"
proof -
  from assms(1) have s: "strategy = HASH_MURMUR3_X64_64" and hf0: "m_hash_func F0 = Some mh"
    by (simp_all add: init_for_write_OK_iff)
  have "initialized F0" using assms(1) by (rule initialized_init_for_write)
  then have F: "initialized F" and hf: "m_hash_func F = Some mh"
    using add_all_fields [OF _ assms(2)] hf0 by simp_all
  from F obtain d where d: "m_data F = Some d"
    by (auto simp: initialized_def split: option.splits)
  have "init_for_read mh d (m_size F) HASH_MURMUR3_X64_64 bf1 = Inr (OK, F)"
    using F hf d by (rule init_for_read_own_buffer)
  with d s show ?thesis by (auto simp: data_def size_bytes_def)
qed

theorem serialization_round_trip_witness:
  "init_for_write optimal_bit_num (\<lambda>bs n seed. seed + ucast n) 0 (1 / 20)
         HASH_MURMUR3_X64_64 BloomFilter_new
       = (OK, \<lparr>m_data = Some (replicate 33 0), m_num_bytes = 32, m_size = 33,
              m_has_null = Some 32, m_hash_func = Some (\<lambda>bs n seed. seed + ucast n)\<rparr>)
   \<and> add_all (add_hash (\<lambda>h nb. [unat h mod (8 * unat nb)])) [(Some [97], 1), (None, 0)]
         \<lparr>m_data = Some (replicate 33 0), m_num_bytes = 32, m_size = 33,
          m_has_null = Some 32, m_hash_func = Some (\<lambda>bs n seed. seed + ucast n)\<rparr>
       = Inr \<lparr>m_data = Some ((replicate 33 0)[2 := 128, 32 := 1]), m_num_bytes = 32, m_size = 33,
              m_has_null = Some 32, m_hash_func = Some (\<lambda>bs n seed. seed + ucast n)\<rparr>
   \<and> (\<exists>d G. data \<lparr>m_data = Some ((replicate 33 0)[2 := 128, 32 := 1]), m_num_bytes = 32,
                  m_size = 33, m_has_null = Some 32,
                  m_hash_func = Some (\<lambda>bs n seed. seed + ucast n)\<rparr> = Some d
        \<and> init_for_read (\<lambda>bs n seed. seed + ucast n) d 33 HASH_MURMUR3_X64_64 BloomFilter_new
            = Inr (OK, G)
        \<and> (\<forall>th v sz. test_bytes th v sz G =
              test_bytes th v sz
                \<lparr>m_data = Some ((replicate 33 0)[2 := 128, 32 := 1]), m_num_bytes = 32,
                 m_size = 33, m_has_null = Some 32,
                 m_hash_func = Some (\<lambda>bs n seed. seed + ucast n)\<rparr>))"
proof -
  let ?mh = "(\<lambda>bs n seed. seed + ucast n) :: hash_func"
  let ?P = "(\<lambda>h nb. [unat h mod (8 * unat nb)]) :: 64 word \<Rightarrow> 32 word \<Rightarrow> nat list"
  let ?W = "\<lparr>m_data = Some (replicate 33 0), m_num_bytes = 32, m_size = 33,
       m_has_null = Some 32, m_hash_func = Some ?mh\<rparr>"
  let ?F = "\<lparr>m_data = Some ((replicate 33 0)[2 := 128, 32 := 1]), m_num_bytes = 32, m_size = 33,
       m_has_null = Some 32, m_hash_func = Some ?mh\<rparr>"
  have h1: "init_for_write optimal_bit_num ?mh 0 (1 / 20) HASH_MURMUR3_X64_64 BloomFilter_new
              = (OK, ?W)"
    by (rule init_for_write_zero)
  have h2: "add_all (add_hash ?P) [(Some [97], 1), (None, 0)] ?W = Inr ?F"
    by (simp add: add_bytes_def add_hash_def hash_def DEFAULT_SEED_def probes_in_array_def
        set_probe_def set_has_null_def Let_def)
  from serialization_round_trip [OF h1 h2, of BloomFilter_new]
  have c: "\<exists>d G. data ?F = Some d
        \<and> init_for_read ?mh d (size_bytes ?F) HASH_MURMUR3_X64_64 BloomFilter_new = Inr (OK, G)
        \<and> (\<forall>th v sz. test_bytes th v sz G = test_bytes th v sz ?F)" .
  have "size_bytes ?F = 33" by (simp add: size_bytes_def)
  with c have c': "\<exists>d G. data ?F = Some d
        \<and> init_for_read ?mh d 33 HASH_MURMUR3_X64_64 BloomFilter_new = Inr (OK, G)
        \<and> (\<forall>th v sz. test_bytes th v sz G = test_bytes th v sz ?F)" by simp
  from h1 h2 c' show ?thesis by (intro conjI)
qed

text \<open>
  C8. Wire layout: after a successful \<open>init\<close> on either path \<open>size()\<close> is \<open>num_bytes() + 1\<close>
  (without wrap-around), \<open>data()\<close> holds \<open>size()\<close> bytes and the has-null flag is the byte
  at offset \<open>num_bytes()\<close>; on the read path \<open>size()\<close> is the given size and \<open>num_bytes()\<close> is
  that size minus 1.
\<close>

theorem wire_layout:
  "(init_for_write obn mh n fpp strategy bf = (OK, f) \<longrightarrow>
      size_bytes f = num_bytes f + 1 \<and> unat (size_bytes f) = unat (num_bytes f) + 1
      \<and> map_option length (data f) = Some (unat (size_bytes f))
      \<and> m_has_null f = Some (unat (num_bytes f)))
   \<and> (init_for_read mh buf sz strategy bf = Inr (OK, g) \<longrightarrow>
      size_bytes g = sz \<and> num_bytes g = sz - 1
      \<and> size_bytes g = num_bytes g + 1 \<and> unat (size_bytes g) = unat (num_bytes g) + 1
      \<and> data g = Some (take (unat sz) buf)
      \<and> map_option length (data g) = Some (unat (size_bytes g))
      \<and> m_has_null g = Some (unat (num_bytes g)))"
proof (intro conjI impI)
  assume a: "init_for_write obn mh n fpp strategy bf = (OK, f)"
  then have i: "initialized f" by (rule initialized_init_for_write)
  from a show "size_bytes f = num_bytes f + 1"
    by (simp add: init_for_write_OK_iff size_bytes_def num_bytes_def)
  from i show "unat (size_bytes f) = unat (num_bytes f) + 1"
    by (auto simp: initialized_def size_bytes_def num_bytes_def split: option.splits)
  from i show "map_option length (data f) = Some (unat (size_bytes f))"
    by (auto simp: initialized_def size_bytes_def data_def split: option.splits)
  from i show "m_has_null f = Some (unat (num_bytes f))"
    by (auto simp: initialized_def num_bytes_def split: option.splits)
next
  assume a: "init_for_read mh buf sz strategy bf = Inr (OK, g)"
  then have i: "initialized g" by (rule initialized_init_for_read)
  from a show "size_bytes g = sz" and "num_bytes g = sz - 1"
    and "data g = Some (take (unat sz) buf)" and "size_bytes g = num_bytes g + 1"
    by (simp_all add: init_for_read_OK_iff size_bytes_def num_bytes_def data_def)
  from i show "unat (size_bytes g) = unat (num_bytes g) + 1"
    by (auto simp: initialized_def size_bytes_def num_bytes_def split: option.splits)
  from i show "map_option length (data g) = Some (unat (size_bytes g))"
    by (auto simp: initialized_def size_bytes_def data_def split: option.splits)
  from i show "m_has_null g = Some (unat (num_bytes g))"
    by (auto simp: initialized_def num_bytes_def split: option.splits)
qed

theorem wire_layout_witness:
  "init_for_write optimal_bit_num (\<lambda>bs n seed. seed + ucast n) 0 (1 / 20)
         HASH_MURMUR3_X64_64 BloomFilter_new
       = (OK, \<lparr>m_data = Some (replicate 33 0), m_num_bytes = 32, m_size = 33,
              m_has_null = Some 32, m_hash_func = Some (\<lambda>bs n seed. seed + ucast n)\<rparr>)
   \<and> init_for_read (\<lambda>bs n seed. seed + ucast n) [1, 2, 3] 3 HASH_MURMUR3_X64_64 BloomFilter_new
       = Inr (OK, \<lparr>m_data = Some [1, 2, 3], m_num_bytes = 2, m_size = 3,
               m_has_null = Some 2, m_hash_func = Some (\<lambda>bs n seed. seed + ucast n)\<rparr>)
   \<and> unat (size_bytes \<lparr>m_data = Some (replicate 33 0), m_num_bytes = 32, m_size = 33,
              m_has_null = Some 32, m_hash_func = Some (\<lambda>bs n seed. seed + ucast n)\<rparr>)
       = unat (num_bytes \<lparr>m_data = Some (replicate 33 0), m_num_bytes = 32, m_size = 33,
              m_has_null = Some 32, m_hash_func = Some (\<lambda>bs n seed. seed + ucast n)\<rparr>) + 1
   \<and> num_bytes \<lparr>m_data = Some [1, 2, 3], m_num_bytes = 2, m_size = 3,
               m_has_null = Some 2, m_hash_func = Some (\<lambda>bs n seed. seed + ucast n)\<rparr> = 3 - 1
   \<and> unat (size_bytes \<lparr>m_data = Some [1, 2, 3], m_num_bytes = 2, m_size = 3,
               m_has_null = Some 2, m_hash_func = Some (\<lambda>bs n seed. seed + ucast n)\<rparr>)
       = unat (num_bytes \<lparr>m_data = Some [1, 2, 3], m_num_bytes = 2, m_size = 3,
               m_has_null = Some 2, m_hash_func = Some (\<lambda>bs n seed. seed + ucast n)\<rparr>) + 1"
proof -
  let ?mh = "(\<lambda>bs n seed. seed + ucast n) :: hash_func"
  let ?W = "\<lparr>m_data = Some (replicate 33 0), m_num_bytes = 32, m_size = 33,
       m_has_null = Some 32, m_hash_func = Some ?mh\<rparr>"
  let ?R = "\<lparr>m_data = Some [1, 2, 3], m_num_bytes = 2, m_size = 3,
       m_has_null = Some 2, m_hash_func = Some ?mh\<rparr>"
  have h1: "init_for_write optimal_bit_num ?mh 0 (1 / 20) HASH_MURMUR3_X64_64 BloomFilter_new
              = (OK, ?W)"
    by (rule init_for_write_zero)
  have h2: "init_for_read ?mh [1, 2, 3] 3 HASH_MURMUR3_X64_64 BloomFilter_new = Inr (OK, ?R)"
    by (rule init_for_read_three)
  note t = wire_layout [of optimal_bit_num ?mh 0 "1 / 20" HASH_MURMUR3_X64_64 BloomFilter_new ?W
      "[1, 2, 3]" 3 ?R]
  from t h1 have c1: "unat (size_bytes ?W) = unat (num_bytes ?W) + 1" by blast
  from t h2 have c2: "num_bytes ?R = 3 - 1" by blast
  from t h2 have c3: "unat (size_bytes ?R) = unat (num_bytes ?R) + 1" by blast
  from h1 h2 c1 c2 c3 show ?thesis by (intro conjI)
qed

text \<open>
  C9. Hash determinism: two filters, each initialised successfully on either path (with the
  one \<open>murmur_hash3_x64_64\<close>) and then populated by any \<open>add_bytes\<close> calls, compute the same
  hash code for every \<open>(buf, size)\<close>: the murmur function applied with the seed
  \<open>DEFAULT_SEED\<close>.
\<close>

theorem hash_deterministic:
  assumes "init_for_write obn1 mh n1 p1 s1 b1 = (OK, f1)
             \<or> init_for_read mh buf1 z1 s1 b1 = Inr (OK, f1)"
    and "init_for_write obn2 mh n2 p2 s2 b2 = (OK, f2)
             \<or> init_for_read mh buf2 z2 s2 b2 = Inr (OK, f2)"
    and "add_all (add_hash probes1) vs1 f1 = Inr g1"
    and "add_all (add_hash probes2) vs2 f2 = Inr g2"
  shows "hash g1 buf sz = Inr (mh buf sz (ucast DEFAULT_SEED))
           \<and> hash g2 buf sz = hash g1 buf sz"
proof -
  have "initialized f1"
    using assms(1) by (rule disjE) (erule initialized_init_for_write, erule initialized_init_for_read)
  moreover have "m_hash_func f1 = Some mh"
    using assms(1) by (auto simp: init_for_write_OK_iff init_for_read_OK_iff)
  ultimately have "initialized f1 \<and> m_hash_func f1 = Some mh" ..
  with assms(3) have h1: "m_hash_func g1 = Some mh"
    using add_all_fields [of f1 probes1 vs1 g1] by simp
  have "initialized f2"
    using assms(2) by (rule disjE) (erule initialized_init_for_write, erule initialized_init_for_read)
  moreover have "m_hash_func f2 = Some mh"
    using assms(2) by (auto simp: init_for_write_OK_iff init_for_read_OK_iff)
  ultimately have "initialized f2 \<and> m_hash_func f2 = Some mh" ..
  with assms(4) have h2: "m_hash_func g2 = Some mh"
    using add_all_fields [of f2 probes2 vs2 g2] by simp
  from h1 h2 show ?thesis by (simp add: hash_def)
qed

theorem hash_deterministic_witness:
  "(init_for_write optimal_bit_num (\<lambda>bs n seed. seed + ucast n) 0 (1 / 20)
         HASH_MURMUR3_X64_64 BloomFilter_new
       = (OK, \<lparr>m_data = Some (replicate 33 0), m_num_bytes = 32, m_size = 33,
              m_has_null = Some 32, m_hash_func = Some (\<lambda>bs n seed. seed + ucast n)\<rparr>))
   \<and> (init_for_read (\<lambda>bs n seed. seed + ucast n) [1, 2, 3] 3 HASH_MURMUR3_X64_64 BloomFilter_new
       = Inr (OK, \<lparr>m_data = Some [1, 2, 3], m_num_bytes = 2, m_size = 3,
               m_has_null = Some 2, m_hash_func = Some (\<lambda>bs n seed. seed + ucast n)\<rparr>))
   \<and> add_all (add_hash (\<lambda>h nb. [unat h mod (8 * unat nb)])) [(Some [97], 1), (None, 0)]
         \<lparr>m_data = Some (replicate 33 0), m_num_bytes = 32, m_size = 33,
          m_has_null = Some 32, m_hash_func = Some (\<lambda>bs n seed. seed + ucast n)\<rparr>
       = Inr \<lparr>m_data = Some ((replicate 33 0)[2 := 128, 32 := 1]), m_num_bytes = 32, m_size = 33,
              m_has_null = Some 32, m_hash_func = Some (\<lambda>bs n seed. seed + ucast n)\<rparr>
   \<and> add_all (add_hash (\<lambda>h nb. [unat h mod (8 * unat nb)])) []
         \<lparr>m_data = Some [1, 2, 3], m_num_bytes = 2, m_size = 3,
          m_has_null = Some 2, m_hash_func = Some (\<lambda>bs n seed. seed + ucast n)\<rparr>
       = Inr \<lparr>m_data = Some [1, 2, 3], m_num_bytes = 2, m_size = 3,
          m_has_null = Some 2, m_hash_func = Some (\<lambda>bs n seed. seed + ucast n)\<rparr>
   \<and> hash \<lparr>m_data = Some ((replicate 33 0)[2 := 128, 32 := 1]), m_num_bytes = 32, m_size = 33,
              m_has_null = Some 32, m_hash_func = Some (\<lambda>bs n seed. seed + ucast n)\<rparr>
         [98, 99] 2 = Inr 1575457560
   \<and> hash \<lparr>m_data = Some [1, 2, 3], m_num_bytes = 2, m_size = 3,
          m_has_null = Some 2, m_hash_func = Some (\<lambda>bs n seed. seed + ucast n)\<rparr>
         [98, 99] 2 = Inr 1575457560"
proof -
  let ?mh = "(\<lambda>bs n seed. seed + ucast n) :: hash_func"
  let ?P = "(\<lambda>h nb. [unat h mod (8 * unat nb)]) :: 64 word \<Rightarrow> 32 word \<Rightarrow> nat list"
  let ?W = "\<lparr>m_data = Some (replicate 33 0), m_num_bytes = 32, m_size = 33,
       m_has_null = Some 32, m_hash_func = Some ?mh\<rparr>"
  let ?F = "\<lparr>m_data = Some ((replicate 33 0)[2 := 128, 32 := 1]), m_num_bytes = 32, m_size = 33,
       m_has_null = Some 32, m_hash_func = Some ?mh\<rparr>"
  let ?R = "\<lparr>m_data = Some [1, 2, 3], m_num_bytes = 2, m_size = 3,
       m_has_null = Some 2, m_hash_func = Some ?mh\<rparr>"
  have h1: "init_for_write optimal_bit_num ?mh 0 (1 / 20) HASH_MURMUR3_X64_64 BloomFilter_new
              = (OK, ?W)"
    by (rule init_for_write_zero)
  have h2: "init_for_read ?mh [1, 2, 3] 3 HASH_MURMUR3_X64_64 BloomFilter_new = Inr (OK, ?R)"
    by (rule init_for_read_three)
  have h3: "add_all (add_hash ?P) [(Some [97], 1), (None, 0)] ?W = Inr ?F"
    by (simp add: add_bytes_def add_hash_def hash_def DEFAULT_SEED_def probes_in_array_def
        set_probe_def set_has_null_def Let_def)
  have h4: "add_all (add_hash ?P) [] ?R = Inr ?R" by simp
  have "hash ?F [98, 99] 2 = Inr (?mh [98, 99] 2 (ucast DEFAULT_SEED))
          \<and> hash ?R [98, 99] 2 = hash ?F [98, 99] 2"
    by (rule hash_deterministic [OF disjI1 disjI2 h3 h4, OF h1 h2])
  then have c1: "hash ?F [98, 99] 2 = Inr 1575457560" and c2: "hash ?R [98, 99] 2 = Inr 1575457560"
    by (simp_all add: DEFAULT_SEED_def)
  from h1 h2 h3 h4 c1 c2 show ?thesis by (intro conjI)
qed

text \<open>
  C10. \<open>reset()\<close> on a filter laid out as \<open>init\<close> leaves it returns and zeroes all \<open>_size\<close>
  bytes: afterwards \<open>has_null()\<close> is false and \<open>test_bytes(nullptr, _)\<close> is false, and every
  byte of the bit array is zero.
\<close>

theorem reset_clears_null:
  assumes "initialized bf"
  shows "\<exists>bf'. reset bf = Inr bf'
           \<and> data bf' = Some (replicate (unat (size_bytes bf)) 0)
           \<and> has_null bf' = Inr False
           \<and> test_bytes th None sz bf' = Inr False"
proof -
  from assms obtain d where d: "m_data bf = Some d" and len: "length d = unat (m_size bf)"
    and sz: "unat (m_size bf) = unat (m_num_bytes bf) + 1"
    and hn: "m_has_null bf = Some (unat (m_num_bytes bf))"
    by (auto simp: initialized_def split: option.splits)
  have r: "reset bf = Inr (bf\<lparr>m_data := Some (replicate (unat (m_size bf)) 0)\<rparr>)"
    by (simp add: reset_def d len)
  have "replicate (unat (m_size bf)) (0 :: byte) ! unat (m_num_bytes bf) = 0"
    by (rule nth_replicate) (simp add: sz)
  then have "has_null (bf\<lparr>m_data := Some (replicate (unat (m_size bf)) 0)\<rparr>) = Inr False"
    by (simp add: has_null_def hn sz)
  with r show ?thesis by (simp add: data_def size_bytes_def test_bytes_def)
qed

theorem reset_clears_null_witness:
  "initialized \<lparr>m_data = Some [128, 1, 1], m_num_bytes = 2, m_size = 3, m_has_null = Some 2,
       m_hash_func = Some (\<lambda>bs n seed. seed + ucast n)\<rparr>
   \<and> has_null \<lparr>m_data = Some [128, 1, 1], m_num_bytes = 2, m_size = 3, m_has_null = Some 2,
       m_hash_func = Some (\<lambda>bs n seed. seed + ucast n)\<rparr> = Inr True
   \<and> (\<exists>bf'. reset \<lparr>m_data = Some [128, 1, 1], m_num_bytes = 2, m_size = 3, m_has_null = Some 2,
          m_hash_func = Some (\<lambda>bs n seed. seed + ucast n)\<rparr> = Inr bf'
        \<and> data bf' = Some [0, 0, 0]
        \<and> has_null bf' = Inr False
        \<and> test_bytes (test_hash (\<lambda>h nb. [unat h mod (8 * unat nb)])) None 7 bf' = Inr False)"
proof -
  let ?mh = "(\<lambda>bs n seed. seed + ucast n) :: hash_func"
  let ?P = "(\<lambda>h nb. [unat h mod (8 * unat nb)]) :: 64 word \<Rightarrow> 32 word \<Rightarrow> nat list"
  let ?F = "\<lparr>m_data = Some [128, 1, 1], m_num_bytes = 2, m_size = 3, m_has_null = Some 2,
       m_hash_func = Some ?mh\<rparr>"
  have h1: "initialized ?F" by (simp add: initialized_def)
  have h2: "has_null ?F = Inr True" by (simp add: has_null_def)
  from reset_clears_null [OF h1, of "test_hash ?P" 7]
  have "\<exists>bf'. reset ?F = Inr bf' \<and> data bf' = Some (replicate (unat (size_bytes ?F)) 0)
           \<and> has_null bf' = Inr False \<and> test_bytes (test_hash ?P) None 7 bf' = Inr False" .
  moreover have "unat (size_bytes ?F) = Suc (Suc (Suc 0))"
    by (simp add: size_bytes_def)
  then have "replicate (unat (size_bytes ?F)) (0 :: byte) = [0, 0, 0]"
    by (simp only: replicate.simps)
  ultimately have c: "\<exists>bf'. reset ?F = Inr bf' \<and> data bf' = Some [0, 0, 0]
           \<and> has_null bf' = Inr False \<and> test_bytes (test_hash ?P) None 7 bf' = Inr False"
    by simp
  from h1 h2 c show ?thesis by (intro conjI)
qed

text \<open>
  C4. The read path on a one-byte buffer: the strategy is the supported one and the size is
  not 0, so \<open>init\<close> returns \<open>OK\<close> and builds a filter with an empty bit array, where the
  spec (a buffer smaller than 2 bytes fails with an invalid-argument condition) and
  \<open>DCHECK(size > 1)\<close> want the size rejected.
\<close>

theorem init_for_read_one_byte:
  "init_for_read mh [b] 1 HASH_MURMUR3_X64_64 BloomFilter_new =
     Inr (OK, \<lparr>m_data = Some [b], m_num_bytes = 0, m_size = 1, m_has_null = Some 0,
              m_hash_func = Some mh\<rparr>)"
  by (simp add: init_for_read_def BloomFilter_new_def)

text \<open>
  What the two paths do reject: a strategy other than the murmur one (the filter is left
  as it was), and on the read path the size 0 (only \<open>_hash_func\<close> has been assigned). A debug
  build aborts on the sizes 0 and 1 before it tests anything else.
\<close>

lemma init_unsupported_strategy:
  "strategy \<noteq> HASH_MURMUR3_X64_64 \<Longrightarrow>
     init_for_write obn mh n fpp strategy bf = (InvalidArgument (invalid_strategy strategy), bf)
     \<and> init_for_read mh buf sz strategy bf = Inr (InvalidArgument (invalid_strategy strategy), bf)"
  by (simp add: init_for_write_def init_for_read_def)

lemma init_for_read_empty:
  "init_for_read mh buf 0 HASH_MURMUR3_X64_64 bf =
     Inr (InvalidArgument (invalid_size 0), bf\<lparr>m_hash_func := Some mh\<rparr>)"
  by (simp add: init_for_read_def)

lemma init_for_read_debug_small:
  "sz = 0 \<or> sz = 1 \<Longrightarrow> init_for_read_debug mh buf sz strategy bf = Inl dcheck_failed"
  by (auto simp: init_for_read_debug_def)

section \<open>Properties of the string dictionary\<close>

lemma nonneg_index:
  assumes "\<not> index <s (0 :: 64 word)"
  shows "int (unat index) = sint index" and "unat (index + 1) = unat index + 1"
proof -
  from assms have ge: "0 \<le> sint index" by (simp add: word_sless_alt)
  have lt: "sint index < 9223372036854775808" using sint_lt [of index] by simp
  then have lt': "sint index < 2 ^ 64" by simp
  have "uint index = take_bit 64 (sint index)" using uint_sint [of index] by simp
  also have "\<dots> = sint index" using ge lt' by (rule take_bit_int_eq_self)
  finally have u: "uint index = sint index" .
  then show i: "int (unat index) = sint index" by (simp only: uint_nat)
  from i lt have "unat index < 9223372036854775808" by linarith
  then have "unat index + unat (1 :: 64 word) < 2 ^ LENGTH(64)" by simp
  then have "unat (index + 1) = unat index + unat (1 :: 64 word)" by (simp only: unat_add_lem)
  then show "unat (index + 1) = unat index + 1" by simp
qed

text \<open>
  C3. \<open>getValueByIndex(code)\<close> throws \<open>std::out_of_range\<close> exactly when \<open>code < 0\<close> or
  \<open>code + 1\<close> is at least the length of the offsets buffer, so for \<open>code = -1\<close> and for
  \<open>code = keyCount\<close>; for \<open>0 \<le> code < keyCount\<close> it returns the pointer
  \<open>dictionaryBlob + offsets[code]\<close> and the length \<open>offsets[code + 1] - offsets[code]\<close>.
\<close>

theorem getValueByIndex_bounds:
  "(getValueByIndex d code = Inl out_of_range \<longleftrightarrow>
      sint code < 0 \<or> int (length (dictionaryOffset d)) \<le> sint code + 1)
   \<and> (sint code = - 1 \<longrightarrow> getValueByIndex d code = Inl out_of_range)
   \<and> (sint code = keyCount d \<longrightarrow> getValueByIndex d code = Inl out_of_range)
   \<and> (0 \<le> sint code \<and> sint code < keyCount d \<longrightarrow>
        getValueByIndex d code =
          Inr (sint (dictionaryOffset d ! nat (sint code)),
               dictionaryOffset d ! (nat (sint code) + 1) - dictionaryOffset d ! nat (sint code)))"
proof -
  have fail: "getValueByIndex d code = Inl out_of_range \<longleftrightarrow>
      sint code < 0 \<or> int (length (dictionaryOffset d)) \<le> sint code + 1"
  proof (cases "code <s 0")
    case True
    then show ?thesis by (simp add: getValueByIndex_def word_sless_alt)
  next
    case False
    from nonneg_index [OF False] have "int (unat (code + 1)) = sint code + 1" by simp
    then have "length (dictionaryOffset d) \<le> unat (code + 1)
        \<longleftrightarrow> int (length (dictionaryOffset d)) \<le> sint code + 1" by linarith
    with False show ?thesis by (simp add: getValueByIndex_def word_sless_alt Let_def)
  qed
  have ok: "getValueByIndex d code =
          Inr (sint (dictionaryOffset d ! nat (sint code)),
               dictionaryOffset d ! (nat (sint code) + 1) - dictionaryOffset d ! nat (sint code))"
    if "0 \<le> sint code \<and> sint code < keyCount d"
  proof -
    from that have nn: "\<not> code <s 0" by (simp add: word_sless_alt)
    have a: "unat code = nat (sint code)"
      by (simp only: nonneg_index(1) [OF nn, symmetric] nat_int)
    have b: "unat (code + 1) = nat (sint code) + 1"
      by (simp only: nonneg_index(2) [OF nn] a)
    have "nat (sint code) + 1 < length (dictionaryOffset d)"
      using that unfolding keyCount_def by linarith
    then have "unat (code + 1) < length (dictionaryOffset d)" by (simp only: b)
    with nn show ?thesis by (simp add: getValueByIndex_def Let_def a b)
  qed
  from fail ok show ?thesis by (simp add: keyCount_def)
qed

theorem getValueByIndex_bounds_witness:
  "getValueByIndex \<lparr>dictionaryBlob = [97, 98, 99], dictionaryOffset = [0, 1, 3]\<rparr> (- 1)
     = Inl out_of_range
   \<and> keyCount \<lparr>dictionaryBlob = [97, 98, 99], dictionaryOffset = [0, 1, 3]\<rparr> = 2
   \<and> getValueByIndex \<lparr>dictionaryBlob = [97, 98, 99], dictionaryOffset = [0, 1, 3]\<rparr> 2
     = Inl out_of_range
   \<and> getValueByIndex \<lparr>dictionaryBlob = [97, 98, 99], dictionaryOffset = [0, 1, 3]\<rparr> 1
     = Inr (1, 2)"
proof -
  let ?d = "\<lparr>dictionaryBlob = [97, 98, 99], dictionaryOffset = [0, 1, 3]\<rparr>"
  have k: "keyCount ?d = 2" by (simp add: keyCount_def)
  have s1: "sint (- 1 :: 64 word) = - 1" by simp
  have s2: "sint (2 :: 64 word) = keyCount ?d" by (simp add: k)
  have s3: "0 \<le> sint (1 :: 64 word) \<and> sint (1 :: 64 word) < keyCount ?d" by (simp add: k)
  have c1: "getValueByIndex ?d (- 1) = Inl out_of_range"
    by (rule getValueByIndex_bounds [of ?d "- 1", THEN conjunct2, THEN conjunct1, THEN mp, OF s1])
  have c2: "getValueByIndex ?d 2 = Inl out_of_range"
    by (rule getValueByIndex_bounds [of ?d 2, THEN conjunct2, THEN conjunct2, THEN conjunct1,
          THEN mp, OF s2])
  have "getValueByIndex ?d 1 =
          Inr (sint (dictionaryOffset ?d ! nat (sint (1 :: 64 word))),
               dictionaryOffset ?d ! (nat (sint (1 :: 64 word)) + 1)
                 - dictionaryOffset ?d ! nat (sint (1 :: 64 word)))"
    by (rule getValueByIndex_bounds [of ?d 1, THEN conjunct2, THEN conjunct2, THEN conjunct2,
          THEN mp, OF s3])
  then have c3: "getValueByIndex ?d 1 = Inr (1, 2)" by simp
  from c1 k c2 c3 show ?thesis by (intro conjI)
qed

section \<open>Properties of the filter on column vector batches\<close>

subsection \<open>Selections\<close>

lemma picks_snoc:
  "picks (sel @ [s]) = picks sel @ (if s \<noteq> 0 then [length sel] else [])"
proof -
  have "filter (\<lambda>i. (sel @ [s]) ! i \<noteq> 0) [0..<length sel] = filter (\<lambda>i. sel ! i \<noteq> 0) [0..<length sel]"
    by (rule filter_cong) (simp_all add: nth_append)
  then show ?thesis by (simp add: picks_def)
qed

lemma picks_Nil: "picks [] = []"
  by (simp add: picks_def)

lemma picks_bound: "i \<in> set (picks sel) \<Longrightarrow> i < length sel \<and> sel ! i \<noteq> 0"
  by (simp add: picks_def)

lemma picks_nth_bound: "k < length (picks sel) \<Longrightarrow> picks sel ! k < length sel \<and> sel ! (picks sel ! k) \<noteq> 0"
  using picks_bound [of "picks sel ! k" sel] by simp

lemma length_picks: "length (picks sel) = count_true sel"
proof -
  have "filter (\<lambda>s. s \<noteq> 0) sel = filter (\<lambda>s. s \<noteq> 0) (map (nth sel) [0..<length sel])"
    by (simp add: map_nth)
  also have "\<dots> = map (nth sel) (filter ((\<lambda>s. s \<noteq> 0) \<circ> nth sel) [0..<length sel])"
    by (rule filter_map)
  finally show ?thesis by (simp add: picks_def count_true_def comp_def)
qed

lemma picks_all_true: "\<forall>i<length sel. sel ! i \<noteq> 0 \<Longrightarrow> picks sel = [0..<length sel]"
  by (simp add: picks_def)

lemma selected_picks: "length sel \<le> length xs \<Longrightarrow> selected sel xs = map (nth xs) (picks sel)"
proof (induction sel arbitrary: xs rule: rev_induct)
  case Nil
  then show ?case by (simp add: selected_def picks_Nil)
next
  case (snoc s sel)
  let ?n = "length sel"
  from snoc.prems have n: "?n < length xs" by simp
  have z: "zip (sel @ [s]) xs = zip sel (take ?n xs) @ [(s, xs ! ?n)]"
    using n by (simp add: zip_append1 flip: Cons_nth_drop_Suc)
  have "selected sel (take ?n xs) = map (nth (take ?n xs)) (picks sel)"
    using n by (intro snoc.IH) simp
  also have "\<dots> = map (nth xs) (picks sel)"
    by (rule map_cong) (auto dest: picks_bound)
  finally have ih: "selected sel (take ?n xs) = map (nth xs) (picks sel)" .
  have "selected (sel @ [s]) xs = selected sel (take ?n xs) @ (if s \<noteq> 0 then [xs ! ?n] else [])"
    by (simp add: selected_def z)
  then show ?case by (simp add: ih picks_snoc)
qed

lemma length_selected: "length sel \<le> length xs \<Longrightarrow> length (selected sel xs) = count_true sel"
  by (simp add: selected_picks length_picks)

lemma compact_nth:
  assumes "length sel \<le> length xs" and "k < count_true sel"
  shows "compact sel xs ! k = xs ! (picks sel ! k)"
  using assms by (simp add: compact_def Let_def selected_picks nth_append length_picks)

lemma selected_map_upt:
  "selected sel (map f [0..<length sel]) = map f (picks sel)"
proof -
  have "selected sel (map f [0..<length sel]) = map (nth (map f [0..<length sel])) (picks sel)"
    by (rule selected_picks) simp
  also have "\<dots> = map f (picks sel)"
    by (rule map_cong) (auto dest: picks_bound)
  finally show ?thesis .
qed

lemma unat_ucast_32_64: "unat (ucast (w :: 32 word) :: 64 word) = unat w"
proof -
  have "uint (ucast w :: 64 word) = uint w" by (rule uint_up_ucast) (simp add: is_up)
  then show ?thesis by (simp only: unat_eq_nat_uint)
qed

lemma base_filter_base:
  "numElements (filter_base r c sel ts) = ucast ts"
  "notNull (filter_base r c sel ts) = compact sel (notNull c)"
  "capacity (filter_base r c sel ts) = capacity c"
  "isEncoded (filter_base r c sel ts) = isEncoded c"
  by (simp_all add: filter_base_def Let_def)

lemma base_compact_batch:
  "base (compact_batch rule b sel ts) = filter_base (rule b) (base b) sel ts"
  by (cases b) (simp_all add: Let_def)

lemma child_size_compact_batch: "child_size (compact_batch rule b sel ts) = unat ts"
  by (simp add: child_size_def base_compact_batch base_filter_base unat_ucast_32_64)

lemma well_formed_base: "well_formed b \<Longrightarrow> base_ok (base b)"
  by (cases b) simp_all

subsection \<open>The derived selection and the new offsets of a list\<close>

lemma offsets_ok_step:
  assumes "offsets_ok n offsets m" and "i < n"
  shows "int (off offsets i) = sint (offsets ! i)"
    and "int (off offsets (Suc i)) = sint (offsets ! (Suc i))"
    and "off offsets i \<le> off offsets (Suc i)"
proof -
  from assms have a: "0 \<le> sint (offsets ! i)" and b: "sint (offsets ! i) \<le> sint (offsets ! (Suc i))"
    by (simp_all add: offsets_ok_def list_all_iff)
  from a show "int (off offsets i) = sint (offsets ! i)" by (simp add: off_def)
  from a b show "int (off offsets (Suc i)) = sint (offsets ! (Suc i))" by (simp add: off_def)
  from a b show "off offsets i \<le> off offsets (Suc i)" by (simp add: off_def)
qed

lemma upt_split: "a \<le> b \<Longrightarrow> b \<le> m \<Longrightarrow> [a..<m] = [a..<b] @ [b..<m]"
proof -
  assume ab: "a \<le> b" and bm: "b \<le> m"
  from ab have "[a..<b + (m - b)] = [a..<b] @ [b..<b + (m - b)]" by (rule upt_add_eq_append)
  with bm show ?thesis by simp
qed

lemma offsets_ok_last: "offsets_ok n offsets m \<Longrightarrow> off offsets n = m"
  by (simp add: offsets_ok_def off_def)

lemma offsets_ok_mono:
  assumes "offsets_ok n offsets m" and "j \<le> n"
  shows "i \<le> j \<Longrightarrow> off offsets i \<le> off offsets j"
  using assms(2)
proof (induction j)
  case 0
  then show ?case by simp
next
  case (Suc j)
  show ?case
  proof (cases "i = Suc j")
    case True
    then show ?thesis by simp
  next
    case False
    with Suc.prems have "i \<le> j" by simp
    moreover from Suc.prems have "j \<le> n" by simp
    ultimately have "off offsets i \<le> off offsets j" by (rule Suc.IH)
    also have "\<dots> \<le> off offsets (Suc j)"
      using assms(1) by (rule offsets_ok_step) (use Suc.prems in simp)
    finally show ?thesis by simp
  qed
qed

lemma filter_upt_less: "a \<le> b \<Longrightarrow> b \<le> m \<Longrightarrow> filter (\<lambda>e. a \<le> e \<and> e < b) [a..<m] = [a..<b]"
proof -
  assume ab: "a \<le> b" and bm: "b \<le> m"
  then have "[a..<m] = [a..<b] @ [b..<m]" by (rule upt_split)
  then show ?thesis by (simp add: filter_empty_conv)
qed

lemma picks_prefix:
  assumes ok: "offsets_ok n offsets m" and k: "k \<le> n"
  shows "filter (\<lambda>e. \<exists>i<k. sel ! i \<noteq> 0 \<and> off offsets i \<le> e \<and> e < off offsets (Suc i)) [0..<m]
           = concat (spans offsets (filter (\<lambda>i. sel ! i \<noteq> 0) [0..<k]))"
  using k
proof (induction k)
  case 0
  then show ?case by (simp add: spans_def)
next
  case (Suc k)
  let ?Q = "\<lambda>k e. \<exists>i<k. sel ! i \<noteq> 0 \<and> off offsets i \<le> e \<and> e < off offsets (Suc i)"
  let ?a = "off offsets k" and ?b = "off offsets (Suc k)"
  from Suc.prems have kn: "k < n" by simp
  have ab: "?a \<le> ?b" using ok kn by (rule offsets_ok_step)
  have bm: "?b \<le> m"
    using offsets_ok_mono [OF ok, of n "Suc k"] kn offsets_ok_last [OF ok] by simp
  have split: "[0..<m] = [0..<?a] @ [?a..<m]"
    using ab bm by (intro upt_split) simp_all
  have before: "filter (?Q (Suc k)) [0..<?a] = filter (?Q k) [0..<?a]"
    by (rule filter_cong) (auto simp: less_Suc_eq)
  have none: "\<not> ?Q k e" if "?a \<le> e" for e
  proof
    assume "?Q k e"
    then obtain i where i: "i < k" and e: "e < off offsets (Suc i)" by blast
    have "off offsets (Suc i) \<le> off offsets k"
      using offsets_ok_mono [OF ok, of k "Suc i"] i kn by simp
    with e that show False by simp
  qed
  have after: "filter (?Q (Suc k)) [?a..<m] = (if sel ! k \<noteq> 0 then [?a..<?b] else [])"
  proof (cases "sel ! k \<noteq> 0")
    case True
    have "filter (?Q (Suc k)) [?a..<m] = filter (\<lambda>e. ?a \<le> e \<and> e < ?b) [?a..<m]"
      by (rule filter_cong) (use True none in \<open>auto simp: less_Suc_eq\<close>)
    with True show ?thesis using ab bm by (simp add: filter_upt_less)
  next
    case False
    have "filter (?Q (Suc k)) [?a..<m] = filter (\<lambda>e. False) [?a..<m]"
      by (rule filter_cong) (use False none in \<open>auto simp: less_Suc_eq\<close>)
    with False show ?thesis by simp
  qed
  have old: "filter (?Q k) [0..<m] = filter (?Q k) [0..<?a]"
  proof -
    have "filter (?Q k) [?a..<m] = []" using none by (simp add: filter_empty_conv)
    then show ?thesis by (subst split) simp
  qed
  have ih: "filter (?Q k) [0..<m] = concat (spans offsets (filter (\<lambda>i. sel ! i \<noteq> 0) [0..<k]))"
    using kn by (intro Suc.IH) simp
  have "filter (?Q (Suc k)) [0..<m] = filter (?Q (Suc k)) ([0..<?a] @ [?a..<m])"
    using split by simp
  also have "\<dots> = filter (?Q (Suc k)) [0..<?a] @ filter (?Q (Suc k)) [?a..<m]"
    by (rule filter_append)
  also have "\<dots> = filter (?Q k) [0..<?a] @ (if sel ! k \<noteq> 0 then [?a..<?b] else [])"
    by (simp only: before after)
  also have "\<dots> = filter (?Q k) [0..<m] @ (if sel ! k \<noteq> 0 then [?a..<?b] else [])"
    by (simp only: old)
  finally have "filter (?Q (Suc k)) [0..<m] =
      concat (spans offsets (filter (\<lambda>i. sel ! i \<noteq> 0) [0..<k]))
        @ (if sel ! k \<noteq> 0 then [?a..<?b] else [])"
    by (simp only: ih)
  then show ?case by (simp add: spans_def)
qed

lemma picks_list_child_selection:
  assumes ok: "offsets_ok n offsets m" and len: "length sel = n"
  shows "picks (list_child_selection sel offsets m) = concat (spans offsets (picks sel))"
proof -
  let ?d = "list_child_selection sel offsets m"
  have ld: "length ?d = m" by (simp add: list_child_selection_def)
  have "picks ?d = filter (\<lambda>e. ?d ! e \<noteq> 0) [0..<m]" by (simp add: picks_def ld)
  also have "\<dots> = filter (\<lambda>e. \<exists>i<n. sel ! i \<noteq> 0 \<and> off offsets i \<le> e \<and> e < off offsets (Suc i)) [0..<m]"
  proof (rule filter_cong [OF refl])
    fix e assume "e \<in> set [0..<m]"
    then have e: "e < m" by simp
    have "(sint (offsets ! i) \<le> int e \<and> int e < sint (offsets ! (Suc i)))
            = (off offsets i \<le> e \<and> e < off offsets (Suc i))" if "i < n" for i
      using offsets_ok_step(1,2) [OF ok that] by linarith
    then show "(?d ! e \<noteq> 0) = (\<exists>i<n. sel ! i \<noteq> 0 \<and> off offsets i \<le> e \<and> e < off offsets (Suc i))"
      using e by (auto simp: list_child_selection_def list_ex_iff len)
  qed
  also have "\<dots> = concat (spans offsets (filter (\<lambda>i. sel ! i \<noteq> 0) [0..<n]))"
    using ok by (rule picks_prefix) simp
  finally show ?thesis by (simp add: picks_def len)
qed

lemma length_running_sum: "length (running_sum a ws) = Suc (length ws)"
  by (induction ws arbitrary: a) simp_all

lemma running_sum_nth: "k \<le> length ws \<Longrightarrow> running_sum a ws ! k = a + sum_list (take k ws)"
proof (induction ws arbitrary: a k)
  case Nil
  then show ?case by simp
next
  case (Cons w ws)
  show ?case
  proof (cases k)
    case 0
    then show ?thesis by simp
  next
    case (Suc j)
    with Cons.prems have "j \<le> length ws" by simp
    then have "running_sum (a + w) ws ! j = (a + w) + sum_list (take j ws)" by (rule Cons.IH)
    with Suc show ?thesis by (simp add: add.assoc)
  qed
qed

lemma lengths_of_nth:
  "Suc i < length offsets \<Longrightarrow> lengths_of offsets ! i = offsets ! Suc i - offsets ! i"
  by (simp add: lengths_of_def nth_tl)

lemma length_lengths_of: "length (lengths_of offsets) = length offsets - 1"
  by (simp add: lengths_of_def)

lemma selected_lengths_of:
  assumes "Suc (length sel) \<le> length offsets"
  shows "selected sel (lengths_of offsets) = map (\<lambda>i. offsets ! Suc i - offsets ! i) (picks sel)"
proof -
  have "selected sel (lengths_of offsets) = map (nth (lengths_of offsets)) (picks sel)"
    using assms by (intro selected_picks) (simp add: length_lengths_of)
  also have "\<dots> = map (\<lambda>i. offsets ! Suc i - offsets ! i) (picks sel)"
  proof (rule map_cong [OF refl])
    fix i assume "i \<in> set (picks sel)"
    then have "i < length sel" by (simp add: picks_bound)
    with assms show "lengths_of offsets ! i = offsets ! Suc i - offsets ! i"
      by (intro lengths_of_nth) simp
  qed
  finally show ?thesis .
qed

lemma word_of_off:
  assumes "offsets_ok n offsets m" and "i < n"
  shows "offsets ! i = of_nat (off offsets i)" and "offsets ! Suc i = of_nat (off offsets (Suc i))"
proof -
  have "offsets ! i = word_of_int (sint (offsets ! i))" by simp
  also have "\<dots> = word_of_int (int (off offsets i))"
    by (simp only: offsets_ok_step(1) [OF assms])
  finally show "offsets ! i = of_nat (off offsets i)" by simp
  have "offsets ! Suc i = word_of_int (sint (offsets ! Suc i))" by simp
  also have "\<dots> = word_of_int (int (off offsets (Suc i)))"
    by (simp only: offsets_ok_step(2) [OF assms])
  finally show "offsets ! Suc i = of_nat (off offsets (Suc i))" by simp
qed

lemma sum_list_lengths:
  assumes ok: "offsets_ok n offsets m"
  shows "\<forall>i\<in>set is. i < n \<Longrightarrow>
     sum_list (map (\<lambda>i. offsets ! Suc i - offsets ! i) is)
       = (of_nat (length (concat (spans offsets is))) :: 64 word)"
proof (induction "is")
  case Nil
  then show ?case by (simp add: spans_def)
next
  case (Cons i "is")
  from Cons.prems have i: "i < n" by simp
  have le: "off offsets i \<le> off offsets (Suc i)" using ok i by (rule offsets_ok_step)
  have "offsets ! Suc i - offsets ! i = (of_nat (off offsets (Suc i)) - of_nat (off offsets i) :: 64 word)"
    using word_of_off [OF ok i] by simp
  also have "\<dots> = of_nat (off offsets (Suc i) - off offsets i)"
    using le by simp
  finally have d: "offsets ! Suc i - offsets ! i = of_nat (off offsets (Suc i) - off offsets i)" .
  have "sum_list (map (\<lambda>i. offsets ! Suc i - offsets ! i) is)
       = (of_nat (length (concat (spans offsets is))) :: 64 word)"
    using Cons.prems by (intro Cons.IH) simp
  then show ?case by (simp add: d spans_def)
qed

lemma sint_of_nat_small: "x < 2 ^ 32 \<Longrightarrow> nat (sint (of_nat x :: 64 word)) = x"
proof -
  assume "x < 2 ^ 32"
  then have "int x < 2 ^ 63" by simp
  then have "signed_take_bit 63 (int x) = int x"
    by (intro signed_take_bit_int_eq_self) simp_all
  then have "sint (of_nat x :: 64 word) = int x"
    by (simp add: signed_of_nat)
  then show ?thesis by simp
qed

lemma unat_of_nat_small: "x < 2 ^ 32 \<Longrightarrow> unat (of_nat x :: 64 word) = x"
  by (simp add: unat_of_nat)

lemma unat_of_nat_small32: "x < 2 ^ 32 \<Longrightarrow> unat (of_nat x :: 32 word) = x"
  by (simp add: unat_of_nat)

lemma length_concat_take_le: "length (concat (take k xss)) \<le> length (concat xss)"
proof -
  have "concat xss = concat (take k xss) @ concat (drop k xss)"
    by (simp flip: concat_append)
  then have "length (concat xss) = length (concat (take k xss)) + length (concat (drop k xss))"
    by (simp only: length_append)
  then show ?thesis by simp
qed

lemma length_picks_le: "length (picks sel) \<le> length sel"
  using length_filter_le [of "\<lambda>i. sel ! i \<noteq> 0" "[0..<length sel]"] by (simp add: picks_def)

lemma spans_take: "take k (spans offsets is) = spans offsets (take k is)"
  by (simp add: spans_def take_map)

lemma off_list_offsets:
  assumes ok: "offsets_ok n offsets m" and len: "length sel = n" and m: "m < 2 ^ 32"
    and k: "k \<le> count_true sel"
  shows "off (list_offsets sel offsets) k = length (concat (take k (spans offsets (picks sel))))"
proof -
  let ?ws = "selected sel (lengths_of offsets)"
  have n1: "Suc (length sel) \<le> length offsets" using ok len by (simp add: offsets_ok_def)
  have ws: "?ws = map (\<lambda>i. offsets ! Suc i - offsets ! i) (picks sel)"
    using n1 by (rule selected_lengths_of)
  have lw: "length ?ws = count_true sel" by (simp add: ws length_picks)
  have "list_offsets sel offsets ! k = running_sum 0 ?ws ! k"
    using k by (simp add: list_offsets_def Let_def nth_append length_running_sum lw)
  also have "\<dots> = sum_list (take k ?ws)"
    using k by (simp add: running_sum_nth lw)
  also have "take k ?ws = map (\<lambda>i. offsets ! Suc i - offsets ! i) (take k (picks sel))"
    by (simp add: ws take_map)
  also have "sum_list \<dots> = of_nat (length (concat (spans offsets (take k (picks sel)))))"
  proof (rule sum_list_lengths [OF ok])
    show "\<forall>i\<in>set (take k (picks sel)). i < n"
      using len by (auto dest!: in_set_takeD dest: picks_bound)
  qed
  finally have v: "list_offsets sel offsets ! k
      = of_nat (length (concat (take k (spans offsets (picks sel)))))"
    by (simp only: spans_take)
  have "length (concat (take k (spans offsets (picks sel))))
          \<le> length (concat (spans offsets (picks sel)))"
    by (rule length_concat_take_le)
  also have "concat (spans offsets (picks sel)) = picks (list_child_selection sel offsets m)"
    using ok len by (rule picks_list_child_selection [symmetric])
  also have "length \<dots> \<le> m"
    using length_picks_le [of "list_child_selection sel offsets m"]
    by (simp add: list_child_selection_def)
  finally have "length (concat (take k (spans offsets (picks sel)))) < 2 ^ 32"
    using m by simp
  then show ?thesis by (simp only: off_def v sint_of_nat_small)
qed

lemma concat_slice:
  assumes "k < length xss"
  shows "map (nth (concat xss))
           [length (concat (take k xss))..<length (concat (take (Suc k) xss))] = xss ! k"
proof -
  let ?a = "concat (take k xss)" and ?c = "concat (drop (Suc k) xss)"
  have xss: "xss = take k xss @ xss ! k # drop (Suc k) xss"
    using assms by (rule id_take_nth_drop)
  have c: "concat xss = ?a @ xss ! k @ ?c"
    by (subst xss) simp
  have t: "concat (take (Suc k) xss) = ?a @ xss ! k"
    using assms by (simp add: take_Suc_conv_app_nth)
  show ?thesis
  proof (rule nth_equalityI)
    show "length (map (nth (concat xss)) [length ?a..<length (concat (take (Suc k) xss))])
            = length (xss ! k)"
      by (simp add: t)
  next
    fix i
    assume "i < length (map (nth (concat xss)) [length ?a..<length (concat (take (Suc k) xss))])"
    then have i: "i < length (xss ! k)" by (simp add: t)
    then have "map (nth (concat xss)) [length ?a..<length (concat (take (Suc k) xss))] ! i
                 = concat xss ! (length ?a + i)"
      by (simp add: t)
    also have "\<dots> = (?a @ xss ! k @ ?c) ! (length ?a + i)" by (simp only: c [symmetric])
    also have "\<dots> = (xss ! k) ! i" using i by (simp add: nth_append)
    finally show "map (nth (concat xss)) [length ?a..<length (concat (take (Suc k) xss))] ! i
                 = (xss ! k) ! i" .
  qed
qed

lemma count_true_le: "count_true sel \<le> length sel"
  by (simp add: count_true_def)

lemma length_spans: "length (spans offsets is) = length is"
  by (simp add: spans_def)

lemma list_rows:
  assumes ok: "offsets_ok n offsets m" and len: "length sel = n" and m: "m < 2 ^ 32"
    and child: "\<And>e. e < count_true (list_child_selection sel offsets m) \<Longrightarrow>
                  g' e = g (picks (list_child_selection sel offsets m) ! e)"
    and k: "k < count_true sel"
  shows "map g' [off (list_offsets sel offsets) k..<off (list_offsets sel offsets) (Suc k)]
           = map g [off offsets (picks sel ! k)..<off offsets (Suc (picks sel ! k))]"
proof -
  let ?d = "list_child_selection sel offsets m"
  let ?B = "spans offsets (picks sel)"
  let ?lo = "length (concat (take k ?B))" and ?hi = "length (concat (take (Suc k) ?B))"
  have kB: "k < length ?B" using k by (simp add: length_spans length_picks)
  have lo: "off (list_offsets sel offsets) k = ?lo"
    using ok len m by (rule off_list_offsets) (use k in simp)
  have hi: "off (list_offsets sel offsets) (Suc k) = ?hi"
    using ok len m by (rule off_list_offsets) (use k in simp)
  have pd: "picks ?d = concat ?B" using ok len by (rule picks_list_child_selection)
  have bound: "?hi \<le> count_true ?d"
    using length_concat_take_le [of "Suc k" ?B] by (simp add: pd flip: length_picks)
  have "map g' [?lo..<?hi] = map (\<lambda>e. g (picks ?d ! e)) [?lo..<?hi]"
  proof (rule map_cong [OF refl])
    fix e assume "e \<in> set [?lo..<?hi]"
    with bound have "e < count_true ?d" by simp
    then show "g' e = g (picks ?d ! e)" by (rule child)
  qed
  also have "\<dots> = map g (map (nth (concat ?B)) [?lo..<?hi])"
    by (simp add: pd)
  also have "map (nth (concat ?B)) [?lo..<?hi] = ?B ! k"
    using kB by (rule concat_slice)
  also have "?B ! k = [off offsets (picks sel ! k)..<off offsets (Suc (picks sel ! k))]"
    using kB by (simp add: spans_def)
  finally show ?thesis by (simp only: lo hi)
qed

subsection \<open>The derived selections and the new offsets of a union\<close>

lemma picks_count_true:
  assumes "x < length d" and "d ! x \<noteq> 0"
  shows "count_true (take x d) < count_true d" and "picks d ! count_true (take x d) = x"
proof -
  let ?P = "\<lambda>i. d ! i \<noteq> 0"
  have "[0..<length d] = [0..<x] @ [x..<length d]"
    using assms(1) by (intro upt_split) simp_all
  also have "[x..<length d] = x # [Suc x..<length d]"
    using assms(1) by (rule upt_conv_Cons)
  finally have "picks d = filter ?P [0..<x] @ x # filter ?P [Suc x..<length d]"
    using assms(2) by (simp add: picks_def)
  moreover have "filter ?P [0..<x] = picks (take x d)"
  proof -
    have "picks (take x d) = filter (\<lambda>i. take x d ! i \<noteq> 0) [0..<x]"
      using assms(1) by (simp add: picks_def min_def)
    also have "\<dots> = filter ?P [0..<x]"
      by (rule filter_cong) simp_all
    finally show ?thesis by simp
  qed
  ultimately have p: "picks d = picks (take x d) @ x # filter ?P [Suc x..<length d]"
    by simp
  have l: "length (picks (take x d)) = count_true (take x d)" by (rule length_picks)
  from p have "length (picks d) = count_true (take x d) + Suc (length (filter ?P [Suc x..<length d]))"
    by (simp add: l)
  then show "count_true (take x d) < count_true d" by (simp add: length_picks)
  have "picks d ! count_true (take x d)
          = (picks (take x d) @ x # filter ?P [Suc x..<length d]) ! length (picks (take x d))"
    by (simp only: p [symmetric] l)
  then show "picks d ! count_true (take x d) = x" by simp
qed

lemma union_child_selection_marks:
  assumes "i < length sel" and "sel ! i \<noteq> 0" and "unat (offsets ! i) < m"
  shows "union_child_selection sel tags offsets (unat (tags ! i)) m ! unat (offsets ! i) \<noteq> 0"
  using assms by (auto simp: union_child_selection_def list_ex_iff)

lemma length_union_child_selection: "length (union_child_selection sel tags offsets j m) = m"
  by (simp add: union_child_selection_def)

lemma length_list_child_selection: "length (list_child_selection sel offsets m) = m"
  by (simp add: list_child_selection_def)

lemma union_offsets_nth:
  assumes "length sel \<le> length tags" and "length sel \<le> length offsets"
    and "k < count_true sel" and "unat (tags ! (picks sel ! k)) < length sizes"
  shows "union_offsets sel tags offsets sizes ! k =
           of_nat (count_true (take (unat (offsets ! (picks sel ! k)))
             (union_child_selection sel tags offsets (unat (tags ! (picks sel ! k)))
                (sizes ! unat (tags ! (picks sel ! k))))))"
proof -
  let ?i = "picks sel ! k"
  have i: "?i < length sel" using assms(3) picks_nth_bound [of k sel] by (simp add: length_picks)
  have s: "selected sel (zip tags offsets) = map (nth (zip tags offsets)) (picks sel)"
    using assms(1,2) by (intro selected_picks) simp
  have "selected sel (zip tags offsets) ! k = zip tags offsets ! ?i"
    using assms(3) by (simp add: s length_picks)
  also have "\<dots> = (tags ! ?i, offsets ! ?i)"
    using i assms(1,2) by simp
  finally have e: "selected sel (zip tags offsets) ! k = (tags ! ?i, offsets ! ?i)" .
  have l: "length (selected sel (zip tags offsets)) = count_true sel"
    by (simp add: s length_picks)
  show ?thesis
    using assms(3,4) by (simp add: union_offsets_def Let_def nth_append l e)
qed

subsection \<open>The filter keeps exactly the selected rows\<close>

lemma base_ok_lengths:
  assumes "base_ok c" and "length sel = unat (numElements c)"
  shows "length sel \<le> length (notNull c)" and "length sel \<le> unat (capacity c)"
    and "length sel < 2 ^ 32"
  using assms by (simp_all add: base_ok_def)

lemma count_true_fits: "length d < 2 ^ 32 \<Longrightarrow> unat (of_nat (count_true d) :: 32 word) = count_true d"
proof -
  assume "length d < 2 ^ 32"
  with count_true_le [of d] have "count_true d < 2 ^ 32" by simp
  then show ?thesis by (rule unat_of_nat_small32)
qed

lemma child_size_bound: "well_formed b \<Longrightarrow> child_size b < 2 ^ 32"
  using well_formed_base [of b] by (simp add: base_ok_def child_size_def)

lemma tags_okD:
  assumes "tags_ok n tags offsets (map child_size children)" and "i < n"
  shows "unat (tags ! i) < length children"
    and "unat (offsets ! i) < child_size (children ! unat (tags ! i))"
    and "n \<le> length tags" and "n \<le> length offsets"
proof -
  from assms(1) have "\<forall>j\<in>set [0..<n]. unat (tags ! j) < length (map child_size children)
      \<and> unat (offsets ! j) < map child_size children ! unat (tags ! j)"
    unfolding tags_ok_def list_all_iff by blast
  moreover have "i \<in> set [0..<n]" using assms(2) by simp
  ultimately have "unat (tags ! i) < length (map child_size children)
      \<and> unat (offsets ! i) < map child_size children ! unat (tags ! i)"
    by (rule bspec)
  then have a': "unat (tags ! i) < length (map child_size children)"
    and b: "unat (offsets ! i) < map child_size children ! unat (tags ! i)"
    by blast+
  from a' have a: "unat (tags ! i) < length children" by simp
  from a show "unat (tags ! i) < length children" .
  have "map child_size children ! unat (tags ! i) = child_size (children ! unat (tags ! i))"
    using a by (rule nth_map)
  with b show "unat (offsets ! i) < child_size (children ! unat (tags ! i))" by (simp only:)
  from assms(1) show "n \<le> length tags" and "n \<le> length offsets"
    unfolding tags_ok_def by blast+
qed

text \<open>
  Row \<open>k\<close> of the filtered batch is the row of the \<open>k\<close>-th selected index of the batch, for
  every variant and every selection within the contract.
\<close>

lemma compact_batch_row_at:
  assumes "well_formed b" and "length sel = child_size b" and "unat ts = count_true sel"
    and "k < count_true sel"
  shows "row_at (compact_batch rule b sel ts) k = row_at b (picks sel ! k)"
  using assms
proof (induction b arbitrary: sel ts k)
  case (LongVectorBatch c xs)
  then have "length sel \<le> length (notNull c)" and "length sel \<le> length xs"
    by (simp_all add: child_size_def base_ok_def)
  with LongVectorBatch.prems(4) show ?case
    by (simp add: base_filter_base compact_nth)
next
  case (DoubleVectorBatch c xs)
  then have "length sel \<le> length (notNull c)" and "length sel \<le> length xs"
    by (simp_all add: child_size_def base_ok_def)
  with DoubleVectorBatch.prems(4) show ?case
    by (simp add: base_filter_base compact_nth)
next
  case (StringVectorBatch c ptrs lens blob codes use_codes)
  then have "length sel \<le> length (notNull c)" and "length sel \<le> length ptrs"
    and "length sel \<le> length lens"
    by (simp_all add: child_size_def base_ok_def)
  with StringVectorBatch.prems(4) show ?case
    by (simp add: base_filter_base compact_nth)
next
  case (EncodedStringVectorBatch c ptrs lens blob codes use_codes dict index)
  then have "length sel \<le> length (notNull c)" and "length sel \<le> length index"
    by (simp_all add: child_size_def base_ok_def)
  with EncodedStringVectorBatch.prems(4) show ?case
    by (simp add: base_filter_base compact_nth)
next
  case (StructVectorBatch c flds)
  then have nn: "length sel \<le> length (notNull c)"
    by (simp add: child_size_def base_ok_def)
  have "row_at (compact_batch rule f sel ts) k = row_at f (picks sel ! k)" if "f \<in> set flds" for f
  proof (rule StructVectorBatch.IH [OF that])
    from StructVectorBatch.prems(1) that show "well_formed f" by (simp add: list_all_iff)
    from StructVectorBatch.prems(1,2) that show "length sel = child_size f"
      by (simp add: list_all_iff child_size_def)
    show "unat ts = count_true sel" by (rule StructVectorBatch.prems(3))
    show "k < count_true sel" by (rule StructVectorBatch.prems(4))
  qed
  then have "map (\<lambda>f. row_at (compact_batch rule f sel ts) k) flds
               = map (\<lambda>f. row_at f (picks sel ! k)) flds"
    by (intro map_cong) simp_all
  with nn StructVectorBatch.prems(4) show ?case
    by (simp add: base_filter_base compact_nth comp_def)
next
  case (ListVectorBatch c offsets elements)
  let ?m = "child_size elements"
  let ?d = "list_child_selection sel offsets ?m"
  from ListVectorBatch.prems(1,2)
  have nn: "length sel \<le> length (notNull c)" and ok: "offsets_ok (length sel) offsets ?m"
    and wf: "well_formed elements"
    by (simp_all add: child_size_def base_ok_def)
  have m: "?m < 2 ^ 32" using wf by (rule child_size_bound)
  have child: "row_at (compact_batch rule elements ?d (of_nat (count_true ?d))) e
                 = row_at elements (picks ?d ! e)" if "e < count_true ?d" for e
    using wf _ _ that
  proof (rule ListVectorBatch.IH)
    show "length ?d = ?m" by (rule length_list_child_selection)
    show "unat (of_nat (count_true ?d) :: 32 word) = count_true ?d"
      using m by (intro count_true_fits) (simp add: length_list_child_selection)
  qed
  have "map (row_at (compact_batch rule elements ?d (of_nat (count_true ?d))))
          [off (list_offsets sel offsets) k..<off (list_offsets sel offsets) (Suc k)]
        = map (row_at elements) [off offsets (picks sel ! k)..<off offsets (Suc (picks sel ! k))]"
    using ok refl m child ListVectorBatch.prems(4) by (rule list_rows)
  with nn ListVectorBatch.prems(4) show ?case
    by (simp add: base_filter_base compact_nth Let_def off_def)
next
  case (MapVectorBatch c offsets keys elements)
  let ?m = "child_size keys"
  let ?d = "list_child_selection sel offsets ?m"
  from MapVectorBatch.prems(1,2)
  have nn: "length sel \<le> length (notNull c)" and ok: "offsets_ok (length sel) offsets ?m"
    and same: "child_size elements = ?m"
    and wfk: "well_formed keys" and wfe: "well_formed elements"
    by (simp_all add: child_size_def base_ok_def)
  have m: "?m < 2 ^ 32" using wfk by (rule child_size_bound)
  have fits: "unat (of_nat (count_true ?d) :: 32 word) = count_true ?d"
    using m by (intro count_true_fits) (simp add: length_list_child_selection)
  have ck: "row_at (compact_batch rule keys ?d (of_nat (count_true ?d))) e
                 = row_at keys (picks ?d ! e)" if "e < count_true ?d" for e
    using wfk _ fits that by (rule MapVectorBatch.IH(1)) (rule length_list_child_selection)
  have ce: "row_at (compact_batch rule elements ?d (of_nat (count_true ?d))) e
                 = row_at elements (picks ?d ! e)" if "e < count_true ?d" for e
    using wfe _ fits that
    by (rule MapVectorBatch.IH(2)) (simp add: length_list_child_selection same)
  let ?g' = "\<lambda>e. (row_at (compact_batch rule keys ?d (of_nat (count_true ?d))) e,
                   row_at (compact_batch rule elements ?d (of_nat (count_true ?d))) e)"
  let ?g = "\<lambda>e. (row_at keys e, row_at elements e)"
  have "map ?g' [off (list_offsets sel offsets) k..<off (list_offsets sel offsets) (Suc k)]
        = map ?g [off offsets (picks sel ! k)..<off offsets (Suc (picks sel ! k))]"
    using ok refl m _ MapVectorBatch.prems(4) by (rule list_rows) (simp add: ck ce)
  with nn MapVectorBatch.prems(4) show ?case
    by (simp add: base_filter_base compact_nth Let_def off_def same)
next
  case (UnionVectorBatch c tags offsets children)
  let ?i = "picks sel ! k"
  let ?t = "unat (tags ! ?i)"
  let ?x = "unat (offsets ! ?i)"
  let ?m = "child_size (children ! ?t)"
  let ?d = "union_child_selection sel tags offsets ?t ?m"
  from UnionVectorBatch.prems(1,2)
  have nn: "length sel \<le> length (notNull c)"
    and tok: "tags_ok (length sel) tags offsets (map child_size children)"
    and wfs: "\<forall>ch\<in>set children. well_formed ch"
    by (simp_all add: child_size_def base_ok_def list_all_iff)
  have i: "?i < length sel" and si: "sel ! ?i \<noteq> 0"
    using UnionVectorBatch.prems(4) picks_nth_bound [of k sel] by (simp_all add: length_picks)
  have t: "?t < length children" and x: "?x < ?m"
    and lt: "length sel \<le> length tags" and lo: "length sel \<le> length offsets"
    using tags_okD [OF tok i] by simp_all
  have mem: "children ! ?t \<in> set children" using t by simp
  with wfs have wf: "well_formed (children ! ?t)" by simp
  have m: "?m < 2 ^ 32" using wf by (rule child_size_bound)
  have mark: "?d ! ?x \<noteq> 0" using i si x by (rule union_child_selection_marks)
  have xl: "?x < length ?d" using x by (simp add: length_union_child_selection)
  have cnt: "count_true (take ?x ?d) < count_true ?d" and pk: "picks ?d ! count_true (take ?x ?d) = ?x"
    using picks_count_true [OF xl mark] by simp_all
  have small: "count_true (take ?x ?d) < 2 ^ 32"
    using cnt count_true_le [of ?d] m by (simp add: length_union_child_selection)
  have newoff: "union_offsets sel tags offsets (map child_size children) ! k
                  = of_nat (count_true (take ?x ?d))"
    using lt lo UnionVectorBatch.prems(4) t by (simp add: union_offsets_nth)
  have child: "row_at (compact_batch rule (children ! ?t) ?d (of_nat (count_true ?d)))
                 (count_true (take ?x ?d))
               = row_at (children ! ?t) (picks ?d ! count_true (take ?x ?d))"
    using mem wf _ _ cnt
  proof (rule UnionVectorBatch.IH)
    show "length ?d = ?m" by (rule length_union_child_selection)
    show "unat (of_nat (count_true ?d) :: 32 word) = count_true ?d"
      using m by (intro count_true_fits) (simp add: length_union_child_selection)
  qed
  from nn lt UnionVectorBatch.prems(4) t show ?case
    by (simp add: base_filter_base compact_nth newoff unat_of_nat_small [OF small]
        child [unfolded pk] Let_def)
next
  case (Decimal64VectorBatch c precision scale vals readScales)
  then have "length sel \<le> length (notNull c)" and "length sel \<le> length vals"
    by (simp_all add: child_size_def base_ok_def)
  with Decimal64VectorBatch.prems(4) show ?case
    by (simp add: base_filter_base compact_nth)
next
  case (Decimal128VectorBatch c precision scale vals readScales)
  then have "length sel \<le> length (notNull c)" and "length sel \<le> length vals"
    by (simp_all add: child_size_def base_ok_def)
  with Decimal128VectorBatch.prems(4) show ?case
    by (simp add: base_filter_base compact_nth)
next
  case (TimestampVectorBatch c secs nanos)
  then have "length sel \<le> length (notNull c)" and "length sel \<le> length secs"
    and "length sel \<le> length nanos"
    by (simp_all add: child_size_def base_ok_def)
  with TimestampVectorBatch.prems(4) show ?case
    by (simp add: base_filter_base compact_nth)
qed

lemma compact_batch_rows:
  assumes "well_formed b" and "length sel = child_size b" and "unat ts = count_true sel"
  shows "rows (compact_batch rule b sel ts) = selected sel (rows b)"
proof -
  have "rows (compact_batch rule b sel ts)
          = map (row_at (compact_batch rule b sel ts)) [0..<count_true sel]"
    by (simp add: rows_def child_size_compact_batch assms(3))
  also have "\<dots> = map (\<lambda>k. row_at b (picks sel ! k)) [0..<length (picks sel)]"
    using assms by (intro map_cong) (simp_all add: length_picks compact_batch_row_at)
  also have "\<dots> = map (row_at b) (map (nth (picks sel)) [0..<length (picks sel)])"
    by simp
  also have "\<dots> = map (row_at b) (picks sel)"
    by (simp only: map_nth)
  also have "\<dots> = selected sel (map (row_at b) [0..<length sel])"
    by (rule selected_map_upt [symmetric])
  finally show ?thesis by (simp add: rows_def assms(2))
qed

lemma selected_all_true:
  assumes "list_all (\<lambda>s. s \<noteq> 0) sel" and "length sel = length xs"
  shows "selected sel xs = xs"
proof -
  from assms(1) have "picks sel = [0..<length sel]"
    by (intro picks_all_true) (simp add: list_all_length)
  then have "selected sel xs = map (nth xs) [0..<length xs]"
    using assms(2) by (simp add: selected_picks)
  then show ?thesis by (simp only: map_nth)
qed

lemma count_true_all_true: "list_all (\<lambda>s. s \<noteq> 0) sel \<Longrightarrow> count_true sel = length sel"
  by (simp add: count_true_def list_all_iff)

text \<open>
  The filter touches nothing but the per-row buffers, \<open>numElements\<close> and \<open>hasNulls\<close>, for
  every variant and every selection.
\<close>

lemma erase_filter_base: "erase (filter_base r c sel ts) = erase c"
  by (simp add: erase_def filter_base_def Let_def)

lemma frame_compact_batch: "frame (compact_batch rule b sel ts) = frame b"
proof (induction b arbitrary: sel ts)
  case (StructVectorBatch c flds)
  have "map (\<lambda>f. frame (compact_batch rule f sel ts)) flds = map frame flds"
    by (intro map_cong refl) (rule StructVectorBatch.IH)
  then show ?case by (simp add: erase_filter_base comp_def)
next
  case (UnionVectorBatch c tags offsets children)
  let ?d = "\<lambda>j. union_child_selection sel tags offsets j (child_size (children ! j))"
  have "map (\<lambda>j. frame (compact_batch rule (children ! j) (?d j) (of_nat (count_true (?d j)))))
          [0..<length children]
        = map (\<lambda>j. frame (children ! j)) [0..<length children]"
    by (intro map_cong refl) (simp add: UnionVectorBatch.IH)
  also have "\<dots> = map frame (map (nth children) [0..<length children])"
    by simp
  also have "\<dots> = map frame children"
    by (simp only: map_nth)
  finally show ?case by (simp add: erase_filter_base comp_def Let_def)
qed (simp_all add: erase_filter_base Let_def)

subsection \<open>A run on the sample batch\<close>

lemma well_formed_sample_list: "well_formed sample_list"
  by (simp add: sample_list_def base_ok_def offsets_ok_def child_size_def upt_rec)

lemma rows_sample_list:
  "rows sample_list = [Items [Entry [10], Entry [20]], Items [], Items [Null, Entry [40], Entry [50]]]"
  by (simp add: sample_list_def rows_def child_size_def upt_rec)

lemma filter_batch_sample:
  "filter_batch (\<lambda>b. carry_forward) sample_list [0, 1, 1] 3 2 =
     Inr (ListVectorBatch
       \<lparr>capacity = 4, numElements = 2, notNull = [1, 1, 1, 0], hasNulls = False,
        isEncoded = False\<rparr>
       [0, 0, 3, 5, 0]
       (LongVectorBatch
          \<lparr>capacity = 8, numElements = 3, notNull = [0, 1, 1, 1, 1, 0, 0, 0], hasNulls = True,
           isEncoded = False\<rparr>
          [30, 40, 50, 40, 50, 0, 0, 0]))"
proof -
  have d: "list_child_selection [0, 1, 1] [0, 2, 2, 5, 0] 5 = [0, 0, 1, 1, 1]"
    by (simp add: list_child_selection_def upt_rec)
  have o: "list_offsets [0, 1, 1] [0, 2, 2, 5, 0] = [0, 0, 3, 5, 0]"
    by (simp add: list_offsets_def lengths_of_def selected_def)
  have w: "well_formed sample_list" by (rule well_formed_sample_list)
  then show ?thesis
    by (simp add: filter_batch_def count_true_def)
      (simp add: sample_list_def child_size_def d o filter_base_def compact_def selected_def
        count_true_def Let_def)
qed

text \<open>
  The example of the spec: rows of lengths 2, 0 and 3 filtered with true, false, true give
  two rows, the offsets 0, 2, 5 and a child that keeps its five elements.
\<close>

lemma filter_batch_spec_example:
  "filter_batch (\<lambda>b. scan_surviving) sample_list [1, 0, 1] 3 2 =
     Inr (ListVectorBatch
       \<lparr>capacity = 4, numElements = 2, notNull = [1, 1, 1, 0], hasNulls = False,
        isEncoded = False\<rparr>
       [0, 2, 5, 5, 0]
       (LongVectorBatch
          \<lparr>capacity = 8, numElements = 5, notNull = [1, 1, 0, 1, 1, 0, 0, 0], hasNulls = True,
           isEncoded = False\<rparr>
          [10, 20, 30, 40, 50, 0, 0, 0]))"
proof -
  have d: "list_child_selection [1, 0, 1] [0, 2, 2, 5, 0] 5 = [1, 1, 1, 1, 1]"
    by (simp add: list_child_selection_def upt_rec)
  have o: "list_offsets [1, 0, 1] [0, 2, 2, 5, 0] = [0, 2, 5, 5, 0]"
    by (simp add: list_offsets_def lengths_of_def selected_def)
  have w: "well_formed sample_list" by (rule well_formed_sample_list)
  then show ?thesis
    by (simp add: filter_batch_def count_true_def)
      (simp add: sample_list_def child_size_def d o filter_base_def compact_def selected_def
        count_true_def Let_def)
qed

subsection \<open>The rows of the sample struct\<close>

lemma well_formed_sample_struct: "well_formed sample_struct"
  using well_formed_sample_list
  by (simp add: sample_struct_def base_ok_def) (simp add: sample_list_def)

lemma dictionary_value_sample:
  "dictionary_value \<lparr>dictionaryBlob = [120, 121, 122], dictionaryOffset = [0, 1, 3]\<rparr> 0 = Inr [120]"
  "dictionary_value \<lparr>dictionaryBlob = [120, 121, 122], dictionaryOffset = [0, 1, 3]\<rparr> 1
     = Inr [121, 122]"
  by (simp_all add: dictionary_value_def getValueByIndex_def bytes_at_def word_sless_alt)

lemma rows_sample_struct:
  "rows sample_struct =
     [Items [DecimalValue 10 2 12345, Text 0 2 [97, 98], Coded 1 (Inr [121, 122]),
             Items [Entry [10], Entry [20]]],
      Items [DecimalValue 10 2 (- 5), Null, Coded 0 (Inr [120]), Items []],
      Items [DecimalValue 10 2 0, Text 2 3 [99, 100, 101], Coded 1 (Inr [121, 122]),
             Items [Null, Entry [40], Entry [50]]]]"
proof -
  have l: "row_at sample_list 0 = Items [Entry [10], Entry [20]]"
    "row_at sample_list (Suc 0) = Items []"
    "row_at sample_list (Suc (Suc 0)) = Items [Null, Entry [40], Entry [50]]"
    by (simp_all add: sample_list_def upt_rec)
  show ?thesis
    by (simp add: sample_struct_def rows_def child_size_def upt_rec l dictionary_value_sample
        bytes_at_def)
qed

subsection \<open>The all-true selection\<close>

text \<open>
  C7. Filter identity on an all-true selection: for a batch of any variant that meets the
  data model's invariants, \<open>filter(f_data, f_size, true_size)\<close> with \<open>f_size\<close> equal to
  \<open>numElements\<close>, the first \<open>f_size\<close> selection bytes all nonzero and \<open>true_size = f_size\<close> is
  within the contract and leaves as they were
  \<^item> the rows of the batch: null markers, values and their order, also of nested children,
    a decimal value with its \<open>precision\<close> and \<open>scale\<close>, a string with the bytes of the \<open>blob\<close>
    it points at, a dictionary code with the bytes the \<open>dictionary\<close> gives for it;
  \<^item> \<open>numElements\<close>;
  \<^item> everything the batch and its children hold besides their rows: \<open>capacity\<close>,
    \<open>isEncoded\<close>, \<open>precision\<close>, \<open>scale\<close>, \<open>readScales\<close>, \<open>blob\<close>, \<open>codes\<close>, \<open>use_codes\<close>,
    \<open>dictionary\<close>;
  whichever way the variants recompute \<open>hasNulls\<close>. The filter is the one modelled from the
  spec.
\<close>

theorem filter_all_true_identity:
  assumes "well_formed b"
    and "ucast f_size = numElements (base b)"
    and "unat f_size \<le> length f_data"
    and "list_all (\<lambda>s. s \<noteq> 0) (take (unat f_size) f_data)"
    and "true_size = f_size"
  shows "\<exists>b'. filter_batch rule b f_data f_size true_size = Inr b'
           \<and> rows b' = rows b
           \<and> numElements (base b') = numElements (base b)
           \<and> frame b' = frame b"
proof -
  let ?sel = "take (unat f_size) f_data"
  have len: "length ?sel = unat f_size" using assms(3) by simp
  have mn: "min (length f_data) (unat f_size) = unat f_size" using assms(3) by simp
  have "unat (numElements (base b)) = unat f_size"
    by (simp only: assms(2) [symmetric] unat_ucast_32_64)
  then have cs: "child_size b = unat f_size" by (simp add: child_size_def)
  have ct: "count_true ?sel = unat f_size"
    by (simp only: count_true_all_true [OF assms(4)] len)
  have run: "filter_batch rule b f_data f_size true_size = Inr (compact_batch rule b ?sel true_size)"
    using assms(1,2,3,5) ct by (simp add: filter_batch_def Let_def mn)
  have "rows (compact_batch rule b ?sel true_size) = selected ?sel (rows b)"
    using assms(1) by (rule compact_batch_rows) (simp_all add: mn cs ct assms(5))
  also have "\<dots> = rows b"
    using assms(4) by (rule selected_all_true) (simp add: mn rows_def cs)
  finally have same: "rows (compact_batch rule b ?sel true_size) = rows b" .
  have "numElements (base (compact_batch rule b ?sel true_size)) = numElements (base b)"
    by (simp add: base_compact_batch base_filter_base assms(2,5))
  moreover have "frame (compact_batch rule b ?sel true_size) = frame b"
    by (rule frame_compact_batch)
  ultimately show ?thesis using run same by simp
qed

theorem filter_all_true_identity_witness:
  "well_formed sample_struct
   \<and> ucast (3 :: 32 word) = numElements (base sample_struct)
   \<and> unat (3 :: 32 word) \<le> length [1, 1, 1 :: byte]
   \<and> list_all (\<lambda>s. s \<noteq> 0) (take (unat (3 :: 32 word)) [1, 1, 1 :: byte])
   \<and> (\<exists>b'. filter_batch (\<lambda>b. scan_surviving) sample_struct [1, 1, 1] 3 3 = Inr b'
         \<and> rows b' =
             [Items [DecimalValue 10 2 12345, Text 0 2 [97, 98], Coded 1 (Inr [121, 122]),
                     Items [Entry [10], Entry [20]]],
              Items [DecimalValue 10 2 (- 5), Null, Coded 0 (Inr [120]), Items []],
              Items [DecimalValue 10 2 0, Text 2 3 [99, 100, 101], Coded 1 (Inr [121, 122]),
                     Items [Null, Entry [40], Entry [50]]]]
         \<and> numElements (base b') = 3
         \<and> frame b' = frame sample_struct)"
proof -
  have h1: "well_formed sample_struct" by (rule well_formed_sample_struct)
  have h2: "ucast (3 :: 32 word) = numElements (base sample_struct)"
    by (simp add: sample_struct_def)
  have h3: "unat (3 :: 32 word) \<le> length [1, 1, 1 :: byte]" by simp
  have h4: "list_all (\<lambda>s. s \<noteq> 0) (take (unat (3 :: 32 word)) [1, 1, 1 :: byte])"
    by simp
  from filter_all_true_identity [OF h1 h2 h3 h4 refl, of "\<lambda>b. scan_surviving"]
  have "\<exists>b'. filter_batch (\<lambda>b. scan_surviving) sample_struct [1, 1, 1] 3 3 = Inr b'
         \<and> rows b' = rows sample_struct
         \<and> numElements (base b') = numElements (base sample_struct)
         \<and> frame b' = frame sample_struct" .
  then have c: "\<exists>b'. filter_batch (\<lambda>b. scan_surviving) sample_struct [1, 1, 1] 3 3 = Inr b'
         \<and> rows b' =
             [Items [DecimalValue 10 2 12345, Text 0 2 [97, 98], Coded 1 (Inr [121, 122]),
                     Items [Entry [10], Entry [20]]],
              Items [DecimalValue 10 2 (- 5), Null, Coded 0 (Inr [120]), Items []],
              Items [DecimalValue 10 2 0, Text 2 3 [99, 100, 101], Coded 1 (Inr [121, 122]),
                     Items [Null, Entry [40], Entry [50]]]]
         \<and> numElements (base b') = 3
         \<and> frame b' = frame sample_struct"
    by (simp only: rows_sample_struct h2 [symmetric]) simp
  from h1 h2 h3 h4 c show ?thesis by (intro conjI)
qed

end
